theory Spec2Isabelle
  imports Main "HOL-Library.Sublist"
begin

section \<open>The npm dependency reducer of build/utils/npm.go\<close>

text \<open>
  A shallow embedding of \<^verbatim>\<open>src/build/utils/npm.go\<close>. Go structs are records, a Go
  \<^verbatim>\<open>error\<close> is a value of the datatype \<open>error\<close>, the map the walk mutates in place is
  passed in and handed back, and the logger is a list of the entries written to it.
  Libraries the file imports (the standard library, jsonparser, gofrog's version, the
  entities and utils packages) are modelled by what the file asks of them; what runs a
  subprocess or reads the disc is a field of the record \<open>env\<close>. Where the file puts a
  logger that drops its entries in the place of a nil one, the model keeps the entries.
\<close>

subsection \<open>Strings\<close>

definition HasPrefix :: "string \<Rightarrow> string \<Rightarrow> bool" where
  "HasPrefix s pre = prefix pre s"

definition TrimPrefix :: "string \<Rightarrow> string \<Rightarrow> string" where
  "TrimPrefix s pre = (if HasPrefix s pre then drop (length pre) s else s)"

text \<open>
  \<^verbatim>\<open>strings.Split(s, sep)\<close> for a separator of one character, which is the only way
  the file calls it (\<^verbatim>\<open>"/"\<close>): the pieces between the separators, always at least one.
\<close>

fun Split :: "string \<Rightarrow> char \<Rightarrow> string list" where
  "Split [] sep = [[]]"
| "Split (c # cs) sep =
     (if c = sep then [] # Split cs sep
      else (case Split cs sep of
              [] \<Rightarrow> [[c]]
            | piece # pieces \<Rightarrow> (c # piece) # pieces))"

definition Contains :: "string \<Rightarrow> char \<Rightarrow> bool" where
  "Contains s c = (c \<in> set s)"

definition Join :: "string list \<Rightarrow> string \<Rightarrow> string" where
  "Join elems sep = (case elems of [] \<Rightarrow> [] | e # es \<Rightarrow> e @ concat (map (\<lambda>x. sep @ x) es))"

subsection \<open>Errors and the log\<close>

text \<open>
  \<open>errors_New\<close> is \<^verbatim>\<open>errors.New\<close> with its text. The next two are jsonparser's
  \<^verbatim>\<open>KeyPathNotFoundError\<close> (whose text is \<^verbatim>\<open>Key path not found\<close>) and
  \<^verbatim>\<open>MalformedObjectError\<close>; \<open>UnmarshalTypeError\<close> is encoding/json refusing a value
  of the wrong JSON type; \<open>NilDereference\<close> is the run-time panic of reading a field
  through a nil pointer, which nothing in the file recovers from, so it ends the
  extraction as an error does; \<open>External\<close> is an error handed back by a collaborator
  (the subprocess, the file system, the cache). \<open>Error\<close> is the method
  \<^verbatim>\<open>Error()\<close>; for \<open>UnmarshalTypeError\<close> and \<open>NilDereference\<close> the text stands for
  the library's, which names the value and the field.
\<close>

datatype error =
    errors_New string
  | KeyPathNotFoundError
  | MalformedObjectError
  | UnmarshalTypeError
  | NilDereference
  | External string

fun Error :: "error \<Rightarrow> string" where
  "Error (errors_New s) = s"
| "Error KeyPathNotFoundError = ''Key path not found''"
| "Error MalformedObjectError = ''Value looks like object, but can't find closing '}' symbol''"
| "Error UnmarshalTypeError = ''json: cannot unmarshal value into Go value''"
| "Error NilDereference = ''runtime error: invalid memory address or nil pointer dereference''"
| "Error (External s) = s"

text \<open>One call of \<^verbatim>\<open>log.Debug\<close> or \<^verbatim>\<open>log.Warn\<close>, with its arguments.\<close>

datatype logEntry = Debug "string list" | Warn "string list"

subsection \<open>JSON documents\<close>

text \<open>
  The bytes jsonparser and encoding/json read are modelled by the JSON value they
  spell, objects keeping the order and the repetitions of their members. Where the
  file looks at the bytes themselves (\<^verbatim>\<open>string(value)\<close>, \<^verbatim>\<open>len(transitive)\<close>) the
  model takes the text \<open>bytes\<close> gives below, which has no white space: the object
  without members is \<^verbatim>\<open>{}\<close>, as npm prints it. A number is kept as its digits.
\<close>

datatype json =
    JNull
  | JBool bool
  | JNumber string
  | JString string
  | JArray "json list"
  | JObject "(string \<times> json) list"

subsection \<open>Records of the data model\<close>

text \<open>
  \<^verbatim>\<open>npmLsDependency\<close> (lines 134-148). \<open>Problems\<close> is a slice, \<open>None\<close> when nil;
  \<open>PeerMissing\<close> is an \<^verbatim>\<open>interface{}\<close>, \<open>None\<close> when nil.
\<close>

record npmLsDependency =
  Name :: string
  Version :: string
  Integrity :: string
  InBundle :: bool
  Dev :: bool
  Optional :: bool
  Missing :: bool
  Problems :: "string list option"
  PeerMissing :: "json option"

text \<open>\<^verbatim>\<open>legacyNpmLsDependency\<close> (lines 151-161); the fields carry the prefix \<open>legacy\<close>.\<close>

record legacyNpmLsDependency =
  legacyName :: string
  legacyVersion :: string
  legacyMissing :: bool
  legacyIntegrity :: string
  legacyInBundle :: bool
  legacyDev :: bool
  legacyInnerOptional :: bool
  legacyOptional :: bool
  legacyPeerMissing :: "json option"

text \<open>
  Modelled from the spec: the struct \<^verbatim>\<open>entities.Dependency\<close>, declared in another
  package of the repository. Section 3 gives the canonical dependency an id, a list of
  scopes, a list of paths to the root (\<open>requestedBy\<close>) and the three checksums; the file
  reads and writes exactly these fields (\<^verbatim>\<open>Id\<close>, \<^verbatim>\<open>Scopes\<close>, \<^verbatim>\<open>RequestedBy\<close>,
  \<^verbatim>\<open>Md5\<close>, \<^verbatim>\<open>Sha1\<close>, \<^verbatim>\<open>Sha256\<close>). The field \<^verbatim>\<open>Id\<close> is written \<open>Id'\<close>.
\<close>

record entities_Dependency =
  Id' :: string
  Scopes :: "string list"
  RequestedBy :: "string list list"
  Md5 :: string
  Sha1 :: string
  Sha256 :: string

text \<open>
  \<^verbatim>\<open>dependencyInfo\<close> (lines 83-86) embeds a \<^verbatim>\<open>Dependency\<close> and a pointer to the
  parsed record (the field \<open>npmLs\<close>). The pointer of an entry is the one the parser returned for the first
  occurrence of the id, no other entry holds it, and the only write through it is the
  integrity backfill of \<open>appendDependency\<close>, so the entry carries the record itself.
\<close>

record dependencyInfo =
  Dependency :: entities_Dependency
  npmLs :: npmLsDependency

type_synonym dependenciesMap = "string \<rightharpoonup> dependencyInfo"

text \<open>\<^verbatim>\<open>PackageInfo\<close> (lines 377-381); the fields carry the prefix \<open>pkg\<close>.\<close>

record PackageInfo =
  pkgName :: string
  pkgVersion :: string
  pkgScope :: string

subsection \<open>The legacy record (lines 163-181)\<close>

definition optional :: "legacyNpmLsDependency \<Rightarrow> bool" where
  "optional lnld = (if legacyOptional lnld then True else legacyInnerOptional lnld)"

definition toNpmLsDependency :: "legacyNpmLsDependency \<Rightarrow> npmLsDependency" where
  "toNpmLsDependency lnld =
     \<lparr> Name = legacyName lnld,
       Version = legacyVersion lnld,
       Integrity = legacyIntegrity lnld,
       InBundle = legacyInBundle lnld,
       Dev = legacyDev lnld,
       Optional = optional lnld,
       Missing = legacyMissing lnld,
       Problems = None,
       PeerMissing = legacyPeerMissing lnld \<rparr>"

subsection \<open>Identity and scopes of a record (lines 184-201)\<close>

text \<open>The method \<^verbatim>\<open>id\<close> is written \<open>id'\<close>.\<close>

definition id' :: "npmLsDependency \<Rightarrow> string" where
  "id' nld = Name nld @ '':'' @ Version nld"

definition getScopes :: "npmLsDependency \<Rightarrow> string list" where
  "getScopes nld =
     (let scopes = (if Dev nld then [''dev''] else [''prod''])
      in if HasPrefix (Name nld) ''@'' then
           (let splitValues = Split (Name nld) (CHR ''/'')
            in if length splitValues > 2 then scopes @ [hd splitValues] else scopes)
         else scopes)"

subsection \<open>Merging an occurrence into the map (lines 259-275, 296-309)\<close>

text \<open>
  The loop of \<open>appendScopes\<close> over \<^verbatim>\<open>append(oldScopes, newScopes...)\<close>: the labels kept
  so far are \<open>allScopes\<close>, and \<^verbatim>\<open>contained[scope]\<close> holds exactly for them.
\<close>

fun appendScopes_loop :: "string list \<Rightarrow> string list \<Rightarrow> string list" where
  "appendScopes_loop allScopes [] = allScopes"
| "appendScopes_loop allScopes (scope # rest) =
     (if scope = [] then appendScopes_loop allScopes rest
      else if scope \<notin> set allScopes then appendScopes_loop (allScopes @ [scope]) rest
      else appendScopes_loop allScopes rest)"

definition appendScopes :: "string list \<Rightarrow> string list \<Rightarrow> string list" where
  "appendScopes oldScopes newScopes = appendScopes_loop [] (oldScopes @ newScopes)"

definition appendDependency ::
  "dependenciesMap \<Rightarrow> npmLsDependency \<Rightarrow> string list \<Rightarrow> dependenciesMap" where
  "appendDependency dependencies dep pathToRoot =
     (let depId = id' dep;
          scopes = getScopes dep;
          dependency =
            (case dependencies depId of
               None \<Rightarrow>
                 \<lparr> Dependency = \<lparr> Id' = depId, Scopes = [], RequestedBy = [],
                                  Md5 = [], Sha1 = [], Sha256 = [] \<rparr>,
                   npmLs = dep \<rparr>
             | Some d \<Rightarrow> d);
          dependency =
            (if Integrity (npmLs dependency) = []
             then dependency\<lparr> npmLs := (npmLs dependency)\<lparr> Integrity := Integrity dep \<rparr> \<rparr>
             else dependency);
          dependency =
            dependency\<lparr> Dependency := (Dependency dependency)
              \<lparr> Scopes := appendScopes (Scopes (Dependency dependency)) scopes \<rparr> \<rparr>;
          dependency =
            dependency\<lparr> Dependency := (Dependency dependency)
              \<lparr> RequestedBy := RequestedBy (Dependency dependency) @ [pathToRoot] \<rparr> \<rparr>
      in dependencies(depId \<mapsto> dependency))"

subsection \<open>The package identity helper (lines 427-439)\<close>

definition splitScopeFromName :: "PackageInfo \<Rightarrow> PackageInfo" where
  "splitScopeFromName packageInfo =
     (if HasPrefix (pkgName packageInfo) ''@'' \<and> Contains (pkgName packageInfo) (CHR ''/'')
      then (let splitValues = Split (pkgName packageInfo) (CHR ''/'')
            in packageInfo\<lparr> pkgScope := splitValues ! 0, pkgName := splitValues ! 1 \<rparr>)
      else packageInfo)"

definition removeVersionPrefixes :: "PackageInfo \<Rightarrow> PackageInfo" where
  "removeVersionPrefixes packageInfo =
     (let packageInfo = packageInfo\<lparr> pkgVersion := TrimPrefix (pkgVersion packageInfo) ''v'' \<rparr>
      in packageInfo\<lparr> pkgVersion := TrimPrefix (pkgVersion packageInfo) ''='' \<rparr>)"

subsection \<open>Reading a value with jsonparser\<close>

text \<open>
  \<^verbatim>\<open>string(value)\<close>: the bytes jsonparser hands over for a value, a string coming
  without its quotes. The text is written compactly; the layout npm gives it and the
  escapes inside strings are not modelled, and the bytes of a string are not read
  again as a document: a string is no object for \<^verbatim>\<open>ObjectEach\<close> and no struct for
  \<^verbatim>\<open>Unmarshal\<close>, whatever its text.
\<close>

fun quoted :: "json \<Rightarrow> string" where
  "quoted JNull = ''null''"
| "quoted (JBool b) = (if b then ''true'' else ''false'')"
| "quoted (JNumber n) = n"
| "quoted (JString s) = [CHR 0x22] @ s @ [CHR 0x22]"
| "quoted (JArray elems) = ''['' @ Join (map quoted elems) '','' @ '']''"
| "quoted (JObject members) =
     ''{'' @ Join (map (\<lambda>(k, v). [CHR 0x22] @ k @ [CHR 0x22] @ '':'' @ quoted v) members) '',''
       @ ''}''"

definition bytes :: "json \<Rightarrow> string" where
  "bytes v = (case v of JString s \<Rightarrow> s | _ \<Rightarrow> quoted v)"

text \<open>
  \<^verbatim>\<open>jsonparser.ObjectEach\<close> visits the members of an object in their order and stops
  at the first error of the callback; on anything but an object it fails. The loop is
  written out at each of its two uses below; \<open>ObjectEach_members\<close> is its first step.
\<close>

definition ObjectEach_members :: "json \<Rightarrow> error + (string \<times> json) list" where
  "ObjectEach_members data =
     (case data of JObject members \<Rightarrow> Inr members | _ \<Rightarrow> Inl MalformedObjectError)"

text \<open>\<^verbatim>\<open>jsonparser.Get(value, key)\<close>: the first member under the key of an object.\<close>

definition Get :: "json \<Rightarrow> string \<Rightarrow> error + json" where
  "Get v key =
     (case v of
        JObject members \<Rightarrow>
          (case map_of members key of None \<Rightarrow> Inl KeyPathNotFoundError | Some x \<Rightarrow> Inr x)
      | _ \<Rightarrow> Inl KeyPathNotFoundError)"

subsection \<open>Decoding a value with encoding/json\<close>

text \<open>
  \<^verbatim>\<open>json.Unmarshal\<close> into a struct takes the members of the object one after the
  other; a member is stored in the field whose name equals its key up to the case of
  the letters, and is dropped when there is none. A \<^verbatim>\<open>null\<close> leaves a string or a
  boolean as it is and makes a slice, an interface or a pointer nil; a value of the
  wrong JSON type is an error.
\<close>

definition toLower :: "char \<Rightarrow> char" where
  "toLower c =
     (case map_of (zip ''ABCDEFGHIJKLMNOPQRSTUVWXYZ'' ''abcdefghijklmnopqrstuvwxyz'') c of
        None \<Rightarrow> c | Some l \<Rightarrow> l)"

definition EqualFold :: "string \<Rightarrow> string \<Rightarrow> bool" where
  "EqualFold s t = (map toLower s = map toLower t)"

fun decode_string :: "json \<Rightarrow> string \<Rightarrow> error + string" where
  "decode_string JNull cur = Inr cur"
| "decode_string (JString s) cur = Inr s"
| "decode_string _ cur = Inl UnmarshalTypeError"

fun decode_bool :: "json \<Rightarrow> bool \<Rightarrow> error + bool" where
  "decode_bool JNull cur = Inr cur"
| "decode_bool (JBool b) cur = Inr b"
| "decode_bool _ cur = Inl UnmarshalTypeError"

fun decode_elements :: "json list \<Rightarrow> error + string list" where
  "decode_elements [] = Inr []"
| "decode_elements (x # xs) =
     (case decode_string x [] of
        Inl e \<Rightarrow> Inl e
      | Inr s \<Rightarrow> (case decode_elements xs of Inl e \<Rightarrow> Inl e | Inr ss \<Rightarrow> Inr (s # ss)))"

fun decode_strings :: "json \<Rightarrow> error + string list option" where
  "decode_strings JNull = Inr None"
| "decode_strings (JArray elems) =
     (case decode_elements elems of Inl e \<Rightarrow> Inl e | Inr ss \<Rightarrow> Inr (Some ss))"
| "decode_strings _ = Inl UnmarshalTypeError"

fun decode_interface :: "json \<Rightarrow> json option" where
  "decode_interface JNull = None"
| "decode_interface v = Some v"

definition store :: "error + 'v \<Rightarrow> ('v \<Rightarrow> 'a) \<Rightarrow> error + 'a" where
  "store r put = (case r of Inl e \<Rightarrow> Inl e | Inr x \<Rightarrow> Inr (put x))"

fun decode_members ::
  "(string \<Rightarrow> json \<Rightarrow> 'a \<Rightarrow> error + 'a) \<Rightarrow> (string \<times> json) list \<Rightarrow> 'a \<Rightarrow> error + 'a" where
  "decode_members field [] d = Inr d"
| "decode_members field ((key, v) # rest) d =
     (case field key v d of Inl e \<Rightarrow> Inl e | Inr d' \<Rightarrow> decode_members field rest d')"

text \<open>
  \<open>Unmarshal\<close> into the struct behind a pointer; \<open>Unmarshal_ptr\<close> is handed the address
  of the pointer, as both parsers of the tree do, so that \<^verbatim>\<open>null\<close> makes the pointer
  nil (\<open>None\<close>).
\<close>

definition Unmarshal ::
  "(string \<Rightarrow> json \<Rightarrow> 'a \<Rightarrow> error + 'a) \<Rightarrow> json \<Rightarrow> 'a \<Rightarrow> error + 'a" where
  "Unmarshal field data d =
     (case data of
        JNull \<Rightarrow> Inr d
      | JObject members \<Rightarrow> decode_members field members d
      | _ \<Rightarrow> Inl UnmarshalTypeError)"

definition Unmarshal_ptr ::
  "(string \<Rightarrow> json \<Rightarrow> 'a \<Rightarrow> error + 'a) \<Rightarrow> json \<Rightarrow> 'a \<Rightarrow> error + 'a option" where
  "Unmarshal_ptr field data d =
     (case data of
        JNull \<Rightarrow> Inr None
      | JObject members \<Rightarrow> store (decode_members field members d) Some
      | _ \<Rightarrow> Inl UnmarshalTypeError)"

text \<open>The fields of the three structs the file decodes, under their JSON names.\<close>

definition npmLsDependency_field ::
  "string \<Rightarrow> json \<Rightarrow> npmLsDependency \<Rightarrow> error + npmLsDependency" where
  "npmLsDependency_field key v d =
     (if EqualFold key ''Name'' then store (decode_string v (Name d)) (\<lambda>x. d\<lparr>Name := x\<rparr>)
      else if EqualFold key ''Version'' then
        store (decode_string v (Version d)) (\<lambda>x. d\<lparr>Version := x\<rparr>)
      else if EqualFold key ''Integrity'' then
        store (decode_string v (Integrity d)) (\<lambda>x. d\<lparr>Integrity := x\<rparr>)
      else if EqualFold key ''InBundle'' then
        store (decode_bool v (InBundle d)) (\<lambda>x. d\<lparr>InBundle := x\<rparr>)
      else if EqualFold key ''Dev'' then store (decode_bool v (Dev d)) (\<lambda>x. d\<lparr>Dev := x\<rparr>)
      else if EqualFold key ''Optional'' then
        store (decode_bool v (Optional d)) (\<lambda>x. d\<lparr>Optional := x\<rparr>)
      else if EqualFold key ''Missing'' then
        store (decode_bool v (Missing d)) (\<lambda>x. d\<lparr>Missing := x\<rparr>)
      else if EqualFold key ''Problems'' then
        store (decode_strings v) (\<lambda>x. d\<lparr>Problems := x\<rparr>)
      else if EqualFold key ''PeerMissing'' then Inr (d\<lparr>PeerMissing := decode_interface v\<rparr>)
      else Inr d)"

definition legacyNpmLsDependency_field ::
  "string \<Rightarrow> json \<Rightarrow> legacyNpmLsDependency \<Rightarrow> error + legacyNpmLsDependency" where
  "legacyNpmLsDependency_field key v d =
     (if EqualFold key ''Name'' then
        store (decode_string v (legacyName d)) (\<lambda>x. d\<lparr>legacyName := x\<rparr>)
      else if EqualFold key ''Version'' then
        store (decode_string v (legacyVersion d)) (\<lambda>x. d\<lparr>legacyVersion := x\<rparr>)
      else if EqualFold key ''Missing'' then
        store (decode_bool v (legacyMissing d)) (\<lambda>x. d\<lparr>legacyMissing := x\<rparr>)
      else if EqualFold key ''_integrity'' then
        store (decode_string v (legacyIntegrity d)) (\<lambda>x. d\<lparr>legacyIntegrity := x\<rparr>)
      else if EqualFold key ''_inBundle'' then
        store (decode_bool v (legacyInBundle d)) (\<lambda>x. d\<lparr>legacyInBundle := x\<rparr>)
      else if EqualFold key ''_development'' then
        store (decode_bool v (legacyDev d)) (\<lambda>x. d\<lparr>legacyDev := x\<rparr>)
      else if EqualFold key ''_optional'' then
        store (decode_bool v (legacyInnerOptional d)) (\<lambda>x. d\<lparr>legacyInnerOptional := x\<rparr>)
      else if EqualFold key ''Optional'' then
        store (decode_bool v (legacyOptional d)) (\<lambda>x. d\<lparr>legacyOptional := x\<rparr>)
      else if EqualFold key ''PeerMissing'' then
        Inr (d\<lparr>legacyPeerMissing := decode_interface v\<rparr>)
      else Inr d)"

definition PackageInfo_field :: "string \<Rightarrow> json \<Rightarrow> PackageInfo \<Rightarrow> error + PackageInfo" where
  "PackageInfo_field key v d =
     (if EqualFold key ''name'' then store (decode_string v (pkgName d)) (\<lambda>x. d\<lparr>pkgName := x\<rparr>)
      else if EqualFold key ''version'' then
        store (decode_string v (pkgVersion d)) (\<lambda>x. d\<lparr>pkgVersion := x\<rparr>)
      else if EqualFold key ''Scope'' then
        store (decode_string v (pkgScope d)) (\<lambda>x. d\<lparr>pkgScope := x\<rparr>)
      else Inr d)"

text \<open>The zero values \<^verbatim>\<open>new\<close> allocates.\<close>

definition new_npmLsDependency :: npmLsDependency where
  "new_npmLsDependency =
     \<lparr> Name = [], Version = [], Integrity = [], InBundle = False, Dev = False,
       Optional = False, Missing = False, Problems = None, PeerMissing = None \<rparr>"

definition new_legacyNpmLsDependency :: legacyNpmLsDependency where
  "new_legacyNpmLsDependency =
     \<lparr> legacyName = [], legacyVersion = [], legacyMissing = False, legacyIntegrity = [],
       legacyInBundle = False, legacyDev = False, legacyInnerOptional = False,
       legacyOptional = False, legacyPeerMissing = None \<rparr>"

definition new_PackageInfo :: PackageInfo where
  "new_PackageInfo = \<lparr> pkgName = [], pkgVersion = [], pkgScope = [] \<rparr>"

subsection \<open>The two parsers and their selection (lines 237-257)\<close>

text \<open>
  A parser returns an error, or the pointer to the record it decoded, \<open>None\<close> when the
  pointer is nil. The legacy parser calls \<open>toNpmLsDependency\<close> through the pointer, which
  panics when \<^verbatim>\<open>null\<close> has made it nil.
\<close>

type_synonym parseFunc = "json \<Rightarrow> error + npmLsDependency option"

definition legacyNpmLsDependencyParser :: parseFunc where
  "legacyNpmLsDependencyParser data =
     (case Unmarshal_ptr legacyNpmLsDependency_field data new_legacyNpmLsDependency of
        Inl err \<Rightarrow> Inl err
      | Inr None \<Rightarrow> Inl NilDereference
      | Inr (Some legacyNpmLsDependency) \<Rightarrow> Inr (Some (toNpmLsDependency legacyNpmLsDependency)))"

definition npmLsDependencyParser :: parseFunc where
  "npmLsDependencyParser data = Unmarshal_ptr npmLsDependency_field data new_npmLsDependency"

text \<open>
  Modelled from the spec: the type \<^verbatim>\<open>version.Version\<close> and its method
  \<^verbatim>\<open>Compare\<close>, of the gofrog library. Section 6: the version query returns a parsed
  semantic version, used to select the parsing schema with the threshold at major
  version 7. A version is the list of its numbers, major first, a missing number
  counting as 0; \<open>Compare v w\<close> is positive when \<open>w\<close> is the newer one, negative when it
  is the older one, and 0 when they are the same. The argument \<^verbatim>\<open>"7.0.0"\<close> of the
  file is \<open>[7, 0, 0]\<close>.
\<close>

type_synonym version = "nat list"

fun Compare :: "version \<Rightarrow> version \<Rightarrow> int" where
  "Compare [] [] = 0"
| "Compare (a # v) [] = (if 0 < a then - 1 else Compare v [])"
| "Compare [] (b # w) = (if 0 < b then 1 else Compare [] w)"
| "Compare (a # v) (b # w) = (if a < b then 1 else if b < a then - 1 else Compare v w)"

definition major :: "version \<Rightarrow> nat" where
  "major v = (case v of [] \<Rightarrow> 0 | a # _ \<Rightarrow> a)"

definition parseNpmLsDependencyFunc :: "version \<Rightarrow> parseFunc" where
  "parseNpmLsDependencyFunc npmVersion =
     (if Compare npmVersion [7, 0, 0] > 0 then legacyNpmLsDependencyParser
      else npmLsDependencyParser)"

subsection \<open>The tree walk (lines 204-235)\<close>

text \<open>
  The walk mutates the map and writes to the log; both are the state \<open>walk\<close>, returned
  with the error (\<open>None\<close> for nil). \<open>parseDependencies_each\<close> is the loop of
  \<^verbatim>\<open>ObjectEach\<close> and \<open>parseDependencies_callback\<close> the function literal it is given.
  \<^verbatim>\<open>len(transitive) > 0\<close> reads the bytes of the nested value.
\<close>

record walk =
  deps :: dependenciesMap
  logs :: "logEntry list"

definition log_Debug :: "walk \<Rightarrow> string list \<Rightarrow> walk" where
  "log_Debug w args = w\<lparr> logs := logs w @ [Debug args] \<rparr>"

function parseDependencies ::
    "json \<Rightarrow> string list \<Rightarrow> walk \<Rightarrow> parseFunc \<Rightarrow> walk \<times> error option"
  and parseDependencies_each ::
    "(string \<times> json) list \<Rightarrow> string list \<Rightarrow> walk \<Rightarrow> parseFunc \<Rightarrow> walk \<times> error option"
  and parseDependencies_callback ::
    "string \<Rightarrow> json \<Rightarrow> string list \<Rightarrow> walk \<Rightarrow> parseFunc \<Rightarrow> walk \<times> error option"
where
  "parseDependencies data pathToRoot w parseFunc =
     (case data of
        JObject members \<Rightarrow> parseDependencies_each members pathToRoot w parseFunc
      | _ \<Rightarrow> (w, Some MalformedObjectError))"
| "parseDependencies_each [] pathToRoot w parseFunc = (w, None)"
| "parseDependencies_each ((key, v) # rest) pathToRoot w parseFunc =
     (case parseDependencies_callback key v pathToRoot w parseFunc of
        (w', Some err) \<Rightarrow> (w', Some err)
      | (w', None) \<Rightarrow> parseDependencies_each rest pathToRoot w' parseFunc)"
| "parseDependencies_callback key v pathToRoot w parseFunc =
     (if bytes v = ''{}'' then
        (log_Debug w [key @ '' is missing. This may be the result of an optional dependency.''],
         None)
      else
        (case parseFunc v of
           Inl err \<Rightarrow> (w, Some err)
         | Inr None \<Rightarrow> (w, Some NilDereference)
         | Inr (Some npmLsDependency) \<Rightarrow>
             if Version npmLsDependency = [] then
               (if Missing npmLsDependency \<or> Problems npmLsDependency \<noteq> None then
                  (log_Debug w
                     [key @ '' is missing, this may be the result of an peer dependency.''],
                   None)
                else
                  (w, Some (errors_New
                              (''failed to parse '' @ [CHR 0x27] @ bytes v @ [CHR 0x27]
                                @ '' from npm ls output.''))))
             else
               (let w = w\<lparr> deps := appendDependency (deps w) npmLsDependency pathToRoot \<rparr>
                in case Get v ''dependencies'' of
                     Inl err \<Rightarrow>
                       (if Error err \<noteq> ''Key path not found'' then (w, Some err) else (w, None))
                   | Inr transitive \<Rightarrow>
                       if length (bytes transitive) > 0 then
                         parseDependencies transitive (id' npmLsDependency # pathToRoot) w
                           parseFunc
                       else (w, None))))"
  by pat_completeness auto
termination
proof -
  have size_map_of: "size x < Suc (size_list (size_prod (\<lambda>_. 0) size) members)"
    if "map_of members key = Some x" for members :: "(string \<times> json) list" and key x
    using that by (induction members) (auto split: if_splits)
  have size_Get: "size x < size v" if "Get v key = Inr x" for v key x
    using that by (cases v) (auto simp: Get_def dest: size_map_of split: option.splits)
  show ?thesis
    by (relation "measure (\<lambda>x. case x of
           Inl (data, _) \<Rightarrow> 3 * size data + 1
         | Inr (Inl (members, _)) \<Rightarrow> 3 * size (JObject members)
         | Inr (Inr (_, v, _)) \<Rightarrow> 3 * size v + 2)")
       (auto dest: size_Get)
qed

subsection \<open>The collaborators\<close>

text \<open>
  What the file obtains from outside the process, as the fields of one record:
  \<^item> \<open>RunNpmCmd_ls\<close>: \<^verbatim>\<open>RunNpmCmd\<close> with the verb \<^verbatim>\<open>Ls\<close>, given the executable, the
    directory and the arguments; it returns the standard output (read as a JSON
    document), the standard error and the error of the run;
  \<^item> \<open>IsDirExists\<close>: \<^verbatim>\<open>utils.IsDirExists\<close> on a path;
  \<^item> \<open>filepath_Join\<close>: \<^verbatim>\<open>filepath.Join\<close> of the standard library on the list of
    its arguments; the path it builds depends on the operating system (the separator,
    the cleaning of the result), so it is taken from the environment as it is;
  \<^item> \<open>GetNpmVersion\<close>: the version query (lines 125-131), with the version parsed;
  \<^item> \<open>GetNpmConfigCache\<close>: the location of the cache (lines 443-462);
  \<^item> \<open>GetInfo\<close> and \<open>GetTarball\<close>: the two lookups of the cache, given the cache
    (\<open>None\<close> for the nil pointer) and the key;
  \<^item> \<open>GetFileChecksums\<close>: \<^verbatim>\<open>utils.GetFileChecksums\<close>, giving md5, sha1 and sha256;
  \<^item> \<open>range_order\<close>: the order in which \<^verbatim>\<open>range\<close> visits the keys of a map, which Go
    leaves open.
  The entries these collaborators write to the log themselves are not modelled.
\<close>

record env =
  RunNpmCmd_ls :: "string \<Rightarrow> string \<Rightarrow> string list \<Rightarrow> json \<times> string \<times> error option"
  IsDirExists :: "string \<Rightarrow> error + bool"
  filepath_Join :: "string list \<Rightarrow> string"
  GetNpmVersion :: "string \<Rightarrow> error + version"
  GetNpmConfigCache :: "string \<Rightarrow> string \<Rightarrow> string list \<Rightarrow> error + string"
  GetInfo :: "string option \<Rightarrow> string \<Rightarrow> error + string"
  GetTarball :: "string option \<Rightarrow> string \<Rightarrow> error + string"
  GetFileChecksums :: "string \<Rightarrow> error + string \<times> string \<times> string"
  range_order :: "dependenciesMap \<Rightarrow> string list"

subsection \<open>Listing the tree (lines 90-123)\<close>

text \<open>The loop of \<^verbatim>\<open>ObjectEach\<close> over the top of the document, with its callback.\<close>

fun CalculateDependenciesMap_each ::
  "(string \<times> json) list \<Rightarrow> string \<Rightarrow> walk \<Rightarrow> parseFunc \<Rightarrow> walk \<times> error option" where
  "CalculateDependenciesMap_each [] moduleId w parseFunc = (w, None)"
| "CalculateDependenciesMap_each ((key, v) # rest) moduleId w parseFunc =
     (case (if key = ''dependencies'' then parseDependencies v [moduleId] w parseFunc
            else (w, None)) of
        (w', Some err) \<Rightarrow> (w', Some err)
      | (w', None) \<Rightarrow> CalculateDependenciesMap_each rest moduleId w' parseFunc)"

text \<open>
  The result is the map with the log, and the error. Where the source returns a nil
  map the model returns the empty one.
\<close>

definition CalculateDependenciesMap ::
  "env \<Rightarrow> string \<Rightarrow> string \<Rightarrow> string \<Rightarrow> string list \<Rightarrow> logEntry list \<Rightarrow> walk \<times> error option"
where
  "CalculateDependenciesMap e executablePath srcPath moduleId npmArgs lg =
     (let dependenciesMap = Map.empty;
          npmArgs = npmArgs @ [''--json'', ''--all'', ''--long''];
          (data, errData, err) = RunNpmCmd_ls e executablePath srcPath npmArgs
      in case (case err of
                 None \<Rightarrow> Inr lg
               | Some err \<Rightarrow>
                   (case IsDirExists e (filepath_Join e [srcPath, ''node_modules'']) of
                      Inl isDirExistsErr \<Rightarrow> Inl isDirExistsErr
                    | Inr found \<Rightarrow>
                        if \<not> found then
                          Inl (errors_New
                                 (''node_modules isn't found in '' @ [CHR 0x27] @ srcPath
                                    @ [CHR 0x27] @ ''. Hint: Restore node_modules folder by running npm install or npm ci.''))
                        else Inr (lg @ [Warn [''npm list command failed with error:'',
                                               Error err]]))) of
           Inl err \<Rightarrow> (\<lparr> deps = Map.empty, logs = lg \<rparr>, Some err)
         | Inr lg \<Rightarrow>
             (let lg = (if length errData > 0
                        then lg @ [Warn [''Some errors occurred while collecting dependencies info:''
                                          @ [CHR 0x0A] @ errData]]
                        else lg)
              in case GetNpmVersion e executablePath of
                   Inl err \<Rightarrow> (\<lparr> deps = Map.empty, logs = lg \<rparr>, Some err)
                 | Inr npmVersion \<Rightarrow>
                     (let parseFunc = parseNpmLsDependencyFunc npmVersion
                      in case ObjectEach_members data of
                           Inl err \<Rightarrow> (\<lparr> deps = dependenciesMap, logs = lg \<rparr>, Some err)
                         | Inr members \<Rightarrow>
                             CalculateDependenciesMap_each members moduleId
                               \<lparr> deps = dependenciesMap, logs = lg \<rparr> parseFunc)))"

subsection \<open>Checksums and the final list (lines 20-81, 277-293)\<close>

definition calculateChecksum ::
  "env \<Rightarrow> string option \<Rightarrow> string \<Rightarrow> string \<Rightarrow> string \<Rightarrow> error + string \<times> string \<times> string"
where
  "calculateChecksum e cacache name version integrity =
     (case (if integrity = [] then GetInfo e cacache (name @ ''@'' @ version)
            else Inr integrity) of
        Inl err \<Rightarrow> Inl err
      | Inr integrity \<Rightarrow>
          (case GetTarball e cacache integrity of
             Inl err \<Rightarrow> Inl err
           | Inr path \<Rightarrow> GetFileChecksums e path))"

text \<open>The five lists the loop of lines 40-67 fills, and the log.\<close>

record assembly =
  dependenciesList :: "entities_Dependency list"
  missingPeerDeps :: "string list"
  missingBundledDeps :: "string list"
  missingOptionalDeps :: "string list"
  otherMissingDeps :: "string list"
  assembly_logs :: "logEntry list"

definition new_assembly :: "logEntry list \<Rightarrow> assembly" where
  "new_assembly lg =
     \<lparr> dependenciesList = [], missingPeerDeps = [], missingBundledDeps = [],
       missingOptionalDeps = [], otherMissingDeps = [], assembly_logs = lg \<rparr>"

text \<open>
  One turn of the loop, for the entry \<open>dep\<close>. The promoted fields \<^verbatim>\<open>dep.Integrity\<close>,
  \<^verbatim>\<open>dep.Optional\<close>, \<^verbatim>\<open>dep.PeerMissing\<close>, \<^verbatim>\<open>dep.Name\<close> and \<^verbatim>\<open>dep.Version\<close> are those
  of the parsed record, \<^verbatim>\<open>dep.Id\<close> and the checksums those of the \<^verbatim>\<open>Dependency\<close>.
\<close>

definition CalculateNpmDependenciesList_body ::
  "env \<Rightarrow> bool \<Rightarrow> string option \<Rightarrow> dependencyInfo \<Rightarrow> assembly \<Rightarrow> assembly" where
  "CalculateNpmDependenciesList_body e calculateChecksums cacache dep a =
     (if Integrity (npmLs dep) = [] \<and> InBundle (npmLs dep) then
        a\<lparr> missingBundledDeps := missingBundledDeps a @ [Id' (Dependency dep)] \<rparr>
      else if Integrity (npmLs dep) = [] \<and> PeerMissing (npmLs dep) \<noteq> None then
        a\<lparr> missingPeerDeps := missingPeerDeps a @ [Id' (Dependency dep)] \<rparr>
      else if calculateChecksums then
        (case calculateChecksum e cacache (Name (npmLs dep)) (Version (npmLs dep))
                (Integrity (npmLs dep)) of
           Inl err \<Rightarrow>
             if Optional (npmLs dep) then
               a\<lparr> missingOptionalDeps := missingOptionalDeps a @ [Id' (Dependency dep)] \<rparr>
             else
               a\<lparr> otherMissingDeps := otherMissingDeps a @ [Id' (Dependency dep)],
                  assembly_logs := assembly_logs a
                    @ [Debug [''couldn't calculate checksum for '' @ Id' (Dependency dep)
                              @ ''. Error: '' @ [CHR 0x27] @ Error err @ [CHR 0x27] @ ''.'']] \<rparr>
         | Inr (md5, sha1, sha256) \<Rightarrow>
             a\<lparr> dependenciesList := dependenciesList a
                  @ [(Dependency dep)\<lparr> Md5 := md5, Sha1 := sha1, Sha256 := sha256 \<rparr>] \<rparr>)
      else a\<lparr> dependenciesList := dependenciesList a @ [Dependency dep] \<rparr>)"

fun CalculateNpmDependenciesList_loop ::
  "env \<Rightarrow> bool \<Rightarrow> string option \<Rightarrow> dependencyInfo list \<Rightarrow> assembly \<Rightarrow> assembly" where
  "CalculateNpmDependenciesList_loop e calculateChecksums cacache [] a = a"
| "CalculateNpmDependenciesList_loop e calculateChecksums cacache (dep # rest) a =
     CalculateNpmDependenciesList_loop e calculateChecksums cacache rest
       (CalculateNpmDependenciesList_body e calculateChecksums cacache dep a)"

text \<open>The entries of a map in the order \<^verbatim>\<open>range\<close> visits them.\<close>

definition range_entries :: "env \<Rightarrow> dependenciesMap \<Rightarrow> dependencyInfo list" where
  "range_entries e m = List.map_filter m (range_order e m)"

definition printMissingDependenciesWarning :: "string \<Rightarrow> string list \<Rightarrow> logEntry list \<Rightarrow> logEntry list"
where
  "printMissingDependenciesWarning dependencyType dependencies lg =
     lg @ [Debug [''The following dependencies will not be included in the build-info, because the 'npm ls' command did not return their integrity.''
                  @ [CHR 0x0A] @ ''The reason why the version wasn't returned may be because the package is a ''
                  @ [CHR 0x27] @ dependencyType @ [CHR 0x27]
                  @ '', which was not manually installed.'' @ [CHR 0x0A]
                  @ '' It is therefore okay to skip this dependency: '' @ Join dependencies '','']]"

definition CalculateNpmDependenciesList_warnings :: "assembly \<Rightarrow> logEntry list" where
  "CalculateNpmDependenciesList_warnings a =
     (let lg = assembly_logs a;
          lg = (if length (missingPeerDeps a) > 0
                then printMissingDependenciesWarning ''peerDependency'' (missingPeerDeps a) lg
                else lg);
          lg = (if length (missingBundledDeps a) > 0
                then printMissingDependenciesWarning ''bundleDependencies'' (missingBundledDeps a) lg
                else lg);
          lg = (if length (missingOptionalDeps a) > 0
                then printMissingDependenciesWarning ''optionalDependencies''
                       (missingOptionalDeps a) lg
                else lg)
      in if length (otherMissingDeps a) > 0
         then lg @ [Warn [''The following dependencies will not be included in the build-info, because they are missing in the npm cache: ''
                          @ [CHR 0x27] @ Join (otherMissingDeps a) '','' @ [CHR 0x27] @ ''.''
                          @ [CHR 0x0A] @ ''Hint: Try to delete 'node_models' and/or 'package-lock.json'.'']]
         else lg)"

definition CalculateNpmDependenciesList ::
  "env \<Rightarrow> string \<Rightarrow> string \<Rightarrow> string \<Rightarrow> string list \<Rightarrow> bool \<Rightarrow> logEntry list
     \<Rightarrow> (error + entities_Dependency list) \<times> logEntry list" where
  "CalculateNpmDependenciesList e executablePath srcPath moduleId npmArgs calculateChecksums lg =
     (case CalculateDependenciesMap e executablePath srcPath moduleId npmArgs lg of
        (w, Some err) \<Rightarrow> (Inl err, logs w)
      | (w, None) \<Rightarrow>
          (case (if calculateChecksums
                 then store (GetNpmConfigCache e srcPath executablePath npmArgs) Some
                 else Inr None) of
             Inl err \<Rightarrow> (Inl err, logs w)
           | Inr cacache \<Rightarrow>
               (let a = CalculateNpmDependenciesList_loop e calculateChecksums cacache
                          (range_entries e (deps w)) (new_assembly (logs w))
                in (Inr (dependenciesList a), CalculateNpmDependenciesList_warnings a))))"

subsection \<open>Reading the manifest (lines 391-402)\<close>

text \<open>\<open>npmVersion\<close> is a pointer, \<open>None\<close> when nil.\<close>

definition ReadPackageInfo :: "json \<Rightarrow> version option \<Rightarrow> error + PackageInfo" where
  "ReadPackageInfo data npmVersion =
     (case Unmarshal PackageInfo_field data new_PackageInfo of
        Inl err \<Rightarrow> Inl err
      | Inr parsedResult \<Rightarrow>
          (let parsedResult =
                 (if (case npmVersion of None \<Rightarrow> False | Some v \<Rightarrow> Compare v [7, 0, 0] > 0)
                  then removeVersionPrefixes parsedResult else parsedResult)
           in Inr (splitScopeFromName parsedResult)))"

section \<open>Notions used in the statements\<close>

text \<open>
  Merging a sequence of occurrences, each a parsed record with the path it was found
  under, in their order: \<open>appendDependency\<close> iterated.
\<close>

definition appendDependencies ::
  "dependenciesMap \<Rightarrow> (npmLsDependency \<times> string list) list \<Rightarrow> dependenciesMap" where
  "appendDependencies m occs =
     foldl (\<lambda>m (dep, pathToRoot). appendDependency m dep pathToRoot) m occs"

text \<open>The digest the map holds for an id, empty when the id is not in the map.\<close>

definition recorded_integrity :: "dependenciesMap \<Rightarrow> string \<Rightarrow> string" where
  "recorded_integrity m k = (case m k of None \<Rightarrow> [] | Some e \<Rightarrow> Integrity (npmLs e))"

text \<open>The first digest that is not empty among the occurrences of an id, empty when there is none.\<close>

definition first_digest :: "string \<Rightarrow> (npmLsDependency \<times> string list) list \<Rightarrow> string" where
  "first_digest k occs =
     (case filter (\<lambda>dep. id' dep = k \<and> Integrity dep \<noteq> []) (map fst occs) of
        [] \<Rightarrow> []
      | dep # _ \<Rightarrow> Integrity dep)"

text \<open>Dropping one leading character \<open>c\<close>, when the string starts with it.\<close>

definition strip_leading :: "char \<Rightarrow> string \<Rightarrow> string" where
  "strip_leading c s = (case s of [] \<Rightarrow> [] | x # rest \<Rightarrow> if x = c then rest else s)"

text \<open>A list of scopes without repetition and without the empty label.\<close>

definition clean :: "string list \<Rightarrow> bool" where
  "clean S = (distinct S \<and> [] \<notin> set S)"

text \<open>The first occurrence of an id in a sequence of occurrences.\<close>

definition first_occurrence ::
  "string \<Rightarrow> (npmLsDependency \<times> string list) list \<Rightarrow> npmLsDependency option" where
  "first_occurrence k occs = find (\<lambda>dep. id' dep = k) (map fst occs)"

text \<open>
  A well-formed list of scopes: no repetition, no empty label, \<open>dev\<close> or \<open>prod\<close> (or
  both) among the labels, and every other label a scope group, which starts with \<open>@\<close>.
\<close>

definition wf_scopes :: "string list \<Rightarrow> bool" where
  "wf_scopes S =
     (distinct S \<and> [] \<notin> set S \<and> (''dev'' \<in> set S \<or> ''prod'' \<in> set S) \<and>
      (\<forall>s \<in> set S. s = ''dev'' \<or> s = ''prod'' \<or> HasPrefix s ''@''))"

definition all_wf :: "dependenciesMap \<Rightarrow> bool" where
  "all_wf m = (\<forall>k e. m k = Some e \<longrightarrow> wf_scopes (Scopes (Dependency e)))"

text \<open>The elements of a list in the order of their first appearance.\<close>

fun first_seen :: "string list \<Rightarrow> string list" where
  "first_seen [] = []"
| "first_seen (x # xs) = x # first_seen (filter (\<lambda>y. y \<noteq> x) xs)"

text \<open>The labels of the occurrences of an id in a sequence of occurrences, in their order.\<close>

definition labels_of :: "string \<Rightarrow> (npmLsDependency \<times> string list) list \<Rightarrow> string list" where
  "labels_of k occs = concat (map getScopes (filter (\<lambda>dep. id' dep = k) (map fst occs)))"

text \<open>
  The scopes, the paths and the checksums the map holds for an id; empty when the id
  is not in the map.
\<close>

definition scopes_of :: "dependenciesMap \<Rightarrow> string \<Rightarrow> string list" where
  "scopes_of m k = (case m k of None \<Rightarrow> [] | Some e \<Rightarrow> Scopes (Dependency e))"

definition requested_of :: "dependenciesMap \<Rightarrow> string \<Rightarrow> string list list" where
  "requested_of m k = (case m k of None \<Rightarrow> [] | Some e \<Rightarrow> RequestedBy (Dependency e))"

definition checksums_of :: "dependenciesMap \<Rightarrow> string \<Rightarrow> string \<times> string \<times> string" where
  "checksums_of m k =
     (case m k of
        None \<Rightarrow> ([], [], [])
      | Some e \<Rightarrow> (Md5 (Dependency e), Sha1 (Dependency e), Sha256 (Dependency e)))"

text \<open>The paths under which an id occurs in a sequence of occurrences.\<close>

definition paths_of :: "string \<Rightarrow> (npmLsDependency \<times> string list) list \<Rightarrow> string list list" where
  "paths_of k occs = map snd (filter (\<lambda>(dep, p). id' dep = k) occs)"

text \<open>
  Every occurrence of the sequence has its id in the map, with a clean list of scopes
  that holds the labels of the occurrence already.
\<close>

definition covered :: "dependenciesMap \<Rightarrow> (npmLsDependency \<times> string list) list \<Rightarrow> bool" where
  "covered m occs =
     (\<forall>(dep, p) \<in> set occs. id' dep \<in> dom m \<and> clean (scopes_of m (id' dep)) \<and>
        set (getScopes dep) - {[]} \<subseteq> set (scopes_of m (id' dep)))"

text \<open>
  The destinations of an entry, and the rules of section 4.4 of the specification
  read from top to bottom, the first that matches deciding: no digest and bundled; no
  digest and a peer-missing marker; checksums requested and their resolution failing,
  where the optional flag chooses between the last two buckets; otherwise the final
  list.
\<close>

datatype destination = MissingBundled | MissingPeer | MissingOptional | OtherMissing | FinalList

definition route :: "env \<Rightarrow> bool \<Rightarrow> string option \<Rightarrow> dependencyInfo \<Rightarrow> destination" where
  "route e calculateChecksums cacache dep =
     (if Integrity (npmLs dep) = [] \<and> InBundle (npmLs dep) then MissingBundled
      else if Integrity (npmLs dep) = [] \<and> PeerMissing (npmLs dep) \<noteq> None then MissingPeer
      else if calculateChecksums \<and>
              isl (calculateChecksum e cacache (Name (npmLs dep)) (Version (npmLs dep))
                     (Integrity (npmLs dep)))
      then (if Optional (npmLs dep) then MissingOptional else OtherMissing)
      else FinalList)"

text \<open>The entries of a list with a given destination, in their order, and the ids of a list of entries.\<close>

definition routed ::
  "env \<Rightarrow> bool \<Rightarrow> string option \<Rightarrow> destination \<Rightarrow> dependencyInfo list \<Rightarrow> dependencyInfo list"
where
  "routed e calculateChecksums cacache d entries =
     filter (\<lambda>dep. route e calculateChecksums cacache dep = d) entries"

definition ids :: "dependencyInfo list \<Rightarrow> string list" where
  "ids entries = map (\<lambda>dep. Id' (Dependency dep)) entries"

text \<open>The record the final list receives for an entry: with its checksums when they were requested.\<close>

definition listed :: "env \<Rightarrow> bool \<Rightarrow> string option \<Rightarrow> dependencyInfo \<Rightarrow> entities_Dependency" where
  "listed e calculateChecksums cacache dep =
     (if calculateChecksums then
        (case calculateChecksum e cacache (Name (npmLs dep)) (Version (npmLs dep))
                (Integrity (npmLs dep)) of
           Inl err \<Rightarrow> Dependency dep
         | Inr (md5, sha1, sha256) \<Rightarrow>
             (Dependency dep)\<lparr> Md5 := md5, Sha1 := sha1, Sha256 := sha256 \<rparr>)
      else Dependency dep)"

text \<open>Every entry of the map sits under its own id.\<close>

definition keys_ok :: "dependenciesMap \<Rightarrow> bool" where
  "keys_ok m = (\<forall>k e. m k = Some e \<longrightarrow> Id' (Dependency e) = k)"

text \<open>The error of line 103, which names the directory whose \<open>node_modules\<close> is missing.\<close>

definition node_modules_missing :: "string \<Rightarrow> error" where
  "node_modules_missing srcPath =
     errors_New (''node_modules isn't found in '' @ [CHR 0x27] @ srcPath @ [CHR 0x27]
        @ ''. Hint: Restore node_modules folder by running npm install or npm ci.'')"

subsection \<open>Example inputs\<close>

definition legacy_node :: json where
  "legacy_node = JObject
     [(''name'', JString ''fsevents''), (''version'', JString ''1.2.13''),
      (''_integrity'', JString ''sha512-A''), (''_optional'', JBool True)]"

definition legacy_record :: legacyNpmLsDependency where
  "legacy_record =
     \<lparr> legacyName = ''fsevents'', legacyVersion = ''1.2.13'', legacyMissing = False,
       legacyIntegrity = ''sha512-A'', legacyInBundle = False, legacyDev = False,
       legacyInnerOptional = True, legacyOptional = False, legacyPeerMissing = None \<rparr>"

definition manifest_v_eq :: json where
  "manifest_v_eq = JObject [(''name'', JString ''pkg''), (''version'', JString ''v=1.2.3'')]"

definition manifest_eq_v :: json where
  "manifest_eq_v = JObject [(''name'', JString ''pkg''), (''version'', JString ''=v1.2.3'')]"

text \<open>
  A tree in which \<open>shared:1.0.0\<close> occurs twice: under \<open>left\<close> as a development
  dependency without a digest, under \<open>right\<close> as a production dependency with one.
\<close>

definition shared_tree :: json where
  "shared_tree = JObject
     [(''left'', JObject
         [(''name'', JString ''left''), (''version'', JString ''1.0.0''),
          (''dependencies'', JObject
             [(''shared'', JObject
                 [(''name'', JString ''shared''), (''version'', JString ''1.0.0''),
                  (''dev'', JBool True)])])]),
      (''right'', JObject
         [(''name'', JString ''right''), (''version'', JString ''2.0.0''),
          (''dependencies'', JObject
             [(''shared'', JObject
                 [(''name'', JString ''shared''), (''version'', JString ''1.0.0''),
                  (''integrity'', JString ''sha512-X'')])])])]"

definition empty_walk :: walk where
  "empty_walk = \<lparr> deps = Map.empty, logs = [] \<rparr>"

text \<open>A map that already holds \<open>shared:1.0.0\<close> with the digest \<open>sha512-A\<close>.\<close>

definition seeded_walk :: walk where
  "seeded_walk =
     \<lparr> deps = appendDependency Map.empty
                (new_npmLsDependency\<lparr> Name := ''shared'', Version := ''1.0.0'',
                                       Integrity := ''sha512-A'' \<rparr>) [''pkgA:1.0.0''],
       logs = [] \<rparr>"

definition seeded_entry :: dependencyInfo where
  "seeded_entry =
     \<lparr> Dependency = \<lparr> Id' = ''shared:1.0.0'', Scopes = [''prod''],
                      RequestedBy = [[''pkgA:1.0.0'']], Md5 = [], Sha1 = [], Sha256 = [] \<rparr>,
       npmLs = new_npmLsDependency\<lparr> Name := ''shared'', Version := ''1.0.0'',
                                    Integrity := ''sha512-A'' \<rparr> \<rparr>"

definition later_occurrence :: npmLsDependency where
  "later_occurrence =
     new_npmLsDependency\<lparr> Name := ''shared'', Version := ''1.0.0'', Integrity := ''sha512-B'',
                          InBundle := True, Dev := True, Optional := True,
                          PeerMissing := Some (JBool True) \<rparr>"

definition walked_entry :: dependencyInfo where
  "walked_entry =
     \<lparr> Dependency = \<lparr> Id' = ''shared:1.0.0'', Scopes = [''prod'', ''dev''],
                      RequestedBy = [[''pkgA:1.0.0''], [''left:1.0.0'', ''pkgA:1.0.0''],
                                     [''right:2.0.0'', ''pkgA:1.0.0'']],
                      Md5 = [], Sha1 = [], Sha256 = [] \<rparr>,
       npmLs = new_npmLsDependency\<lparr> Name := ''shared'', Version := ''1.0.0'',
                                    Integrity := ''sha512-A'' \<rparr> \<rparr>"

text \<open>
  A tree with one dependency for each destination of the final loop, the listing that
  holds it, and an environment: the listing prints \<open>ls_output\<close> and fails, npm is
  8.19.2, the only directory there can be is \<open>/proj/node_modules\<close>, which is there or
  not as \<open>found\<close> says, paths are joined with \<open>/\<close> and without their empty elements,
  and the cache holds the tarball of one digest.
\<close>

definition routes_tree :: json where
  "routes_tree = JObject
     [(''bundled'', JObject [(''name'', JString ''bundled''), (''version'', JString ''1.0.0''),
                            (''inBundle'', JBool True)]),
      (''peer'', JObject [(''name'', JString ''peer''), (''version'', JString ''1.0.0''),
                         (''peerMissing'', JBool True)]),
      (''opt'', JObject [(''name'', JString ''opt''), (''version'', JString ''1.0.0''),
                        (''optional'', JBool True)]),
      (''lost'', JObject [(''name'', JString ''lost''), (''version'', JString ''1.0.0'')]),
      (''ok'', JObject [(''name'', JString ''ok''), (''version'', JString ''1.0.0''),
                       (''integrity'', JString ''sha512-X'')])]"

definition ls_output :: json where
  "ls_output = JObject
     [(''name'', JString ''pkgA''), (''version'', JString ''1.0.0''),
      (''dependencies'', routes_tree)]"

definition example_env :: "bool \<Rightarrow> env" where
  "example_env found =
     \<lparr> RunNpmCmd_ls = (\<lambda>executablePath srcPath npmArgs.
          (ls_output, ''npm ERR! extraneous'', Some (External ''exit status 1''))),
       IsDirExists = (\<lambda>path. Inr (found \<and> path = ''/proj/node_modules'')),
       filepath_Join = (\<lambda>elems. Join (filter (\<lambda>elem. elem \<noteq> []) elems) ''/''),
       GetNpmVersion = (\<lambda>executablePath. Inr [8, 19, 2]),
       GetNpmConfigCache = (\<lambda>srcPath executablePath npmArgs. Inr ''/home/u/.npm/_cacache''),
       GetInfo = (\<lambda>cacache key. Inl (External ''no index entry'')),
       GetTarball = (\<lambda>cacache integrity.
          if integrity = ''sha512-X'' then Inr ''/home/u/.npm/_cacache/content/x''
          else Inl (External ''no tarball'')),
       GetFileChecksums = (\<lambda>path. Inr (''md5-x'', ''sha1-x'', ''sha256-x'')),
       range_order = (\<lambda>m. [''ok:1.0.0'', ''lost:1.0.0'', ''opt:1.0.0'', ''peer:1.0.0'',
                             ''bundled:1.0.0'']) \<rparr>"

text \<open>The records of \<open>routes_tree\<close> as occurrences, and the map they are merged into.\<close>

definition routes_occurrences :: "(npmLsDependency \<times> string list) list" where
  "routes_occurrences =
     [(new_npmLsDependency\<lparr> Name := ''bundled'', Version := ''1.0.0'', InBundle := True \<rparr>,
       [''pkgA:1.0.0'']),
      (new_npmLsDependency\<lparr> Name := ''peer'', Version := ''1.0.0'',
                            PeerMissing := Some (JBool True) \<rparr>, [''pkgA:1.0.0'']),
      (new_npmLsDependency\<lparr> Name := ''opt'', Version := ''1.0.0'', Optional := True \<rparr>,
       [''pkgA:1.0.0'']),
      (new_npmLsDependency\<lparr> Name := ''lost'', Version := ''1.0.0'' \<rparr>, [''pkgA:1.0.0'']),
      (new_npmLsDependency\<lparr> Name := ''ok'', Version := ''1.0.0'', Integrity := ''sha512-X'' \<rparr>,
       [''pkgA:1.0.0''])]"

definition routes_map :: dependenciesMap where
  "routes_map = appendDependencies Map.empty routes_occurrences"









section \<open>Properties\<close>

declare parseDependencies.simps [simp del] parseDependencies_each.simps [simp del]
  parseDependencies_callback.simps [simp del]

subsection \<open>The walk is a sequence of merges\<close>

lemma appendDependencies_Nil: "appendDependencies m [] = m"
  by (simp add: appendDependencies_def)

lemma appendDependencies_Cons:
  "appendDependencies m ((dep, p) # occs) = appendDependencies (appendDependency m dep p) occs"
  by (simp add: appendDependencies_def)

lemma appendDependencies_append:
  "appendDependencies m (xs @ ys) = appendDependencies (appendDependencies m xs) ys"
  by (simp add: appendDependencies_def)

text \<open>
  Which records are merged, what is logged and which error ends the walk depend on the
  tree, the path and the parser only, never on the map: a walk is one fixed sequence
  of calls of \<open>appendDependency\<close>.
\<close>

lemma walk_is_merge:
  fixes w :: walk
  shows "\<exists>occs lg err. \<forall>w'. parseDependencies data pathToRoot w' parseFunc =
       (\<lparr> deps = appendDependencies (deps w') occs, logs = logs w' @ lg \<rparr>, err)"
  and "\<exists>occs lg err. \<forall>w'. parseDependencies_each members pathToRoot w' parseFunc =
       (\<lparr> deps = appendDependencies (deps w') occs, logs = logs w' @ lg \<rparr>, err)"
  and "\<exists>occs lg err. \<forall>w'. parseDependencies_callback key v pathToRoot w' parseFunc =
       (\<lparr> deps = appendDependencies (deps w') occs, logs = logs w' @ lg \<rparr>, err)"
proof (induction data pathToRoot w parseFunc and members pathToRoot w parseFunc
        and key v pathToRoot w parseFunc
        rule: parseDependencies_parseDependencies_each_parseDependencies_callback.induct)
  case (1 data pathToRoot w parseFunc)
  show ?case
  proof (cases data)
    case (JObject members)
    from 1[OF JObject] obtain occs lg err where
      "\<forall>w'. parseDependencies_each members pathToRoot w' parseFunc =
         (\<lparr> deps = appendDependencies (deps w') occs, logs = logs w' @ lg \<rparr>, err)" by blast
    then show ?thesis using JObject
      by (auto simp: parseDependencies.simps)
  qed (auto simp: parseDependencies.simps intro!: exI[of _ "[]"] simp: appendDependencies_Nil)
next
  case (2 pathToRoot w parseFunc)
  show ?case
    by (auto simp: parseDependencies_each.simps appendDependencies_Nil intro!: exI[of _ "[]"])
next
  case (3 key v rest pathToRoot w parseFunc)
  from 3(1) obtain occs1 lg1 err1 where cb:
    "\<And>w'. parseDependencies_callback key v pathToRoot w' parseFunc =
       (\<lparr> deps = appendDependencies (deps w') occs1, logs = logs w' @ lg1 \<rparr>, err1)" by blast
  show ?case
  proof (cases err1)
    case (Some e)
    show ?thesis
      by (rule exI[of _ occs1], rule exI[of _ lg1], rule exI[of _ "Some e"])
         (simp add: parseDependencies_each.simps cb Some)
  next
    case None
    from 3(2)[OF cb[of w, symmetric] None] obtain occs2 lg2 err2 where rest:
      "\<And>w'. parseDependencies_each rest pathToRoot w' parseFunc =
         (\<lparr> deps = appendDependencies (deps w') occs2, logs = logs w' @ lg2 \<rparr>, err2)" by blast
    show ?thesis
      by (rule exI[of _ "occs1 @ occs2"], rule exI[of _ "lg1 @ lg2"], rule exI[of _ err2])
         (simp add: parseDependencies_each.simps cb None rest appendDependencies_append)
  qed
next
  case (4 key v pathToRoot w parseFunc)
  show ?case
  proof (cases "bytes v = ''{}''")
    case True
    then show ?thesis
      by (intro exI[of _ "[]"] exI[of _ "[Debug [key @ '' is missing. This may be the result of an optional dependency.'']]"] exI[of _ None])
         (simp add: parseDependencies_callback.simps log_Debug_def appendDependencies_Nil)
  next
    case notEmpty: False
    show ?thesis
    proof (cases "parseFunc v")
      case (Inl e)
      with notEmpty show ?thesis
        by (intro exI[of _ "[]"] exI[of _ "[]"] exI[of _ "Some e"])
           (simp add: parseDependencies_callback.simps appendDependencies_Nil)
    next
      case (Inr r)
      show ?thesis
      proof (cases r)
        case None
        with notEmpty Inr show ?thesis
          by (intro exI[of _ "[]"] exI[of _ "[]"] exI[of _ "Some NilDereference"])
             (simp add: parseDependencies_callback.simps appendDependencies_Nil)
      next
        case (Some d)
        show ?thesis
        proof (cases "Version d = []")
          case True
          show ?thesis
          proof (cases "Missing d \<or> Problems d \<noteq> None")
            case True
            with notEmpty Inr Some \<open>Version d = []\<close> show ?thesis
              by (intro exI[of _ "[]"] exI[of _ "[Debug [key @ '' is missing, this may be the result of an peer dependency.'']]"] exI[of _ None])
                 (simp add: parseDependencies_callback.simps log_Debug_def appendDependencies_Nil)
          next
            case False
            with notEmpty Inr Some \<open>Version d = []\<close> show ?thesis
              by (intro exI[of _ "[]"] exI[of _ "[]"]
                    exI[of _ "Some (errors_New (''failed to parse '' @ [CHR 0x27] @ bytes v
                                @ [CHR 0x27] @ '' from npm ls output.''))"])
                 (simp add: parseDependencies_callback.simps appendDependencies_Nil)
          qed
        next
          case hasVersion: False
          show ?thesis
          proof (cases "Get v ''dependencies''")
            case (Inl e)
            with notEmpty Inr Some hasVersion show ?thesis
              by (intro exI[of _ "[(d, pathToRoot)]"] exI[of _ "[]"]
                    exI[of _ "if Error e \<noteq> ''Key path not found'' then Some e else None"])
                 (simp add: parseDependencies_callback.simps appendDependencies_Nil
                    appendDependencies_Cons)
          next
            case getOk: (Inr transitive)
            show ?thesis
            proof (cases "length (bytes transitive) > 0")
              case False
              with notEmpty Inr Some hasVersion getOk show ?thesis
                by (intro exI[of _ "[(d, pathToRoot)]"] exI[of _ "[]"] exI[of _ None])
                   (simp add: parseDependencies_callback.simps appendDependencies_Nil
                      appendDependencies_Cons)
            next
              case True
              from 4[OF notEmpty Inr Some hasVersion refl getOk True]
              obtain occs lg err where
                "\<And>w'. parseDependencies transitive (id' d # pathToRoot) w' parseFunc =
                   (\<lparr> deps = appendDependencies (deps w') occs, logs = logs w' @ lg \<rparr>, err)"
                by blast
              with notEmpty Inr Some hasVersion getOk True show ?thesis
                by (intro exI[of _ "(d, pathToRoot) # occs"] exI[of _ lg] exI[of _ err])
                   (simp add: parseDependencies_callback.simps appendDependencies_Cons)
            qed
          qed
        qed
      qed
    qed
  qed
qed

subsection \<open>One merge\<close>

lemma appendDependency_other:
  "k \<noteq> id' dep \<Longrightarrow> appendDependency m dep p k = m k"
  by (simp add: appendDependency_def Let_def)

lemma appendDependency_new:
  "m (id' dep) = None \<Longrightarrow>
   appendDependency m dep p (id' dep) =
     Some \<lparr> Dependency = \<lparr> Id' = id' dep, Scopes = appendScopes [] (getScopes dep),
                          RequestedBy = [p], Md5 = [], Sha1 = [], Sha256 = [] \<rparr>,
            npmLs = dep \<rparr>"
  by (simp add: appendDependency_def Let_def)

lemma appendDependency_old:
  "m (id' dep) = Some e \<Longrightarrow>
   appendDependency m dep p (id' dep) =
     Some (e\<lparr> npmLs := (npmLs e)\<lparr> Integrity :=
                  (if Integrity (npmLs e) = [] then Integrity dep else Integrity (npmLs e)) \<rparr>,
              Dependency := (Dependency e)
                \<lparr> Scopes := appendScopes (Scopes (Dependency e)) (getScopes dep),
                  RequestedBy := RequestedBy (Dependency e) @ [p] \<rparr> \<rparr>)"
  by (simp add: appendDependency_def Let_def)

lemma recorded_integrity_step:
  "recorded_integrity (appendDependency m dep p) k =
     (if recorded_integrity m k \<noteq> [] then recorded_integrity m k
      else if id' dep = k then Integrity dep else [])"
proof (cases "k = id' dep")
  case False
  then show ?thesis
    by (auto simp: recorded_integrity_def appendDependency_other split: option.splits)
next
  case True
  then show ?thesis
    by (cases "m (id' dep)")
       (auto simp: recorded_integrity_def appendDependency_new appendDependency_old)
qed

lemma first_digest_Cons:
  "first_digest k ((dep, p) # occs) =
     (if id' dep = k \<and> Integrity dep \<noteq> [] then Integrity dep else first_digest k occs)"
  by (simp add: first_digest_def)

text \<open>
  Claim C1. Once the map holds a digest that is not empty for an id, no later
  occurrence clears or replaces it, whatever digest that occurrence carries: after
  merging any sequence of occurrences the digest of an id is the one the map held
  before, when that was not empty, and otherwise the first digest that is not empty among
  the occurrences of the id, in their order. A walk of a tree, being such a sequence,
  keeps every digest that is not empty.
\<close>

theorem C1_first_digest_retained:
  "recorded_integrity (appendDependencies m occs) k =
     (if recorded_integrity m k \<noteq> [] then recorded_integrity m k else first_digest k occs)
   \<and> (recorded_integrity (deps w) k \<noteq> [] \<longrightarrow>
        recorded_integrity (deps (fst (parseDependencies data pathToRoot w parseFunc))) k
          = recorded_integrity (deps w) k)"
proof -
  have fold: "recorded_integrity (appendDependencies m occs) k =
     (if recorded_integrity m k \<noteq> [] then recorded_integrity m k else first_digest k occs)"
    for m occs
  proof (induction occs arbitrary: m)
    case Nil
    show ?case by (simp add: appendDependencies_Nil first_digest_def)
  next
    case (Cons occ occs)
    obtain dep p where occ: "occ = (dep, p)" by (cases occ)
    show ?case
      unfolding occ appendDependencies_Cons Cons.IH recorded_integrity_step first_digest_Cons
      by simp
  qed
  obtain occs' lg err where
    "\<And>w'. parseDependencies data pathToRoot w' parseFunc =
       (\<lparr> deps = appendDependencies (deps w') occs', logs = logs w' @ lg \<rparr>, err)"
    using walk_is_merge(1)[of data pathToRoot parseFunc] by blast
  then have "recorded_integrity (deps (fst (parseDependencies data pathToRoot w parseFunc))) k
      = recorded_integrity (appendDependencies (deps w) occs') k"
    by simp
  with fold show ?thesis by simp
qed

theorem C1_first_digest_retained_witness:
  "recorded_integrity (deps seeded_walk) ''shared:1.0.0'' \<noteq> [] \<and>
   recorded_integrity
     (deps (fst (parseDependencies shared_tree [''pkgA:1.0.0''] seeded_walk
                   npmLsDependencyParser))) ''shared:1.0.0'' = ''sha512-A''"
proof -
  have h: "recorded_integrity (deps seeded_walk) ''shared:1.0.0'' = ''sha512-A''"
    by code_simp
  from C1_first_digest_retained[of Map.empty "[]" "''shared:1.0.0''" seeded_walk shared_tree
      "[''pkgA:1.0.0'']" npmLsDependencyParser] h
  show ?thesis by simp
qed

subsection \<open>Strings and versions\<close>

lemma Split_nonempty: "Split s c \<noteq> []"
  by (induction s) (auto split: list.splits)

lemma Split_length: "length (Split s c) = Suc (length (filter (\<lambda>x. x = c) s))"
  by (induction s) (auto split: list.splits simp: Split_nonempty)

lemma Split_hd: "hd (Split s c) = takeWhile (\<lambda>x. x \<noteq> c) s"
  by (induction s) (auto split: list.splits simp: Split_nonempty)

lemma TrimPrefix_char: "TrimPrefix s [c] = strip_leading c s"
  by (cases s) (auto simp: TrimPrefix_def HasPrefix_def strip_leading_def)

lemma Compare_Nil: "Compare v [] \<le> 0"
  by (induction v) auto

lemma Compare_0: "Compare v [0] \<le> 0"
  using Compare_Nil by (cases v) auto

lemma Compare_00: "Compare v [0, 0] \<le> 0"
  using Compare_0 by (cases v) auto

lemma Compare_7: "(Compare v [7, 0, 0] > 0) = (major v < 7)"
proof (cases v)
  case Nil
  then show ?thesis by (simp add: major_def)
next
  case (Cons a v')
  have "Compare v' [0, 0] \<le> 0" by (rule Compare_00)
  with Cons show ?thesis by (auto simp: major_def)
qed

lemma pkgVersion_splitScopeFromName: "pkgVersion (splitScopeFromName p) = pkgVersion p"
  by (simp add: splitScopeFromName_def Let_def)

subsection \<open>The legacy parser\<close>

text \<open>
  Claim C9. For every node the legacy parser decodes, the record it returns is the
  conversion of the decoded legacy struct: its optional flag is the disjunction of the
  top-level \<open>optional\<close> and the inner \<open>_optional\<close>, and name, version, integrity, bundled,
  dev, missing and peer-missing are carried over as they are.
\<close>

theorem C9_legacy_optional:
  "Unmarshal_ptr legacyNpmLsDependency_field data new_legacyNpmLsDependency = Inr (Some l) \<Longrightarrow>
   legacyNpmLsDependencyParser data = Inr (Some (toNpmLsDependency l)) \<and>
   Optional (toNpmLsDependency l) = (legacyOptional l \<or> legacyInnerOptional l) \<and>
   Name (toNpmLsDependency l) = legacyName l \<and>
   Version (toNpmLsDependency l) = legacyVersion l \<and>
   Integrity (toNpmLsDependency l) = legacyIntegrity l \<and>
   InBundle (toNpmLsDependency l) = legacyInBundle l \<and>
   Dev (toNpmLsDependency l) = legacyDev l \<and>
   Missing (toNpmLsDependency l) = legacyMissing l \<and>
   PeerMissing (toNpmLsDependency l) = legacyPeerMissing l"
  by (simp add: legacyNpmLsDependencyParser_def toNpmLsDependency_def optional_def)

theorem C9_legacy_optional_witness:
  "Unmarshal_ptr legacyNpmLsDependency_field legacy_node new_legacyNpmLsDependency
     = Inr (Some legacy_record) \<and>
   legacyNpmLsDependencyParser legacy_node = Inr (Some (toNpmLsDependency legacy_record)) \<and>
   Optional (toNpmLsDependency legacy_record)"
proof -
  have h: "Unmarshal_ptr legacyNpmLsDependency_field legacy_node new_legacyNpmLsDependency
             = Inr (Some legacy_record)"
    by code_simp
  from C9_legacy_optional[OF h] h show ?thesis
    by (simp add: legacy_record_def)
qed

subsection \<open>Scope groups\<close>

text \<open>
  Claim C8. For a record whose name begins with \<open>@\<close>, \<open>getScopes\<close> gives \<open>dev\<close> or
  \<open>prod\<close>, followed by the first segment of the name when splitting the name on \<open>/\<close>
  yields more than two segments, and by nothing otherwise: \<open>@org/sub/pkg\<close> contributes
  \<open>@org\<close>, \<open>@org/pkg\<close> contributes no label.
\<close>

theorem C8_scope_group:
  "HasPrefix (Name nld) ''@'' \<Longrightarrow>
   getScopes nld =
     (if Dev nld then [''dev''] else [''prod''])
       @ (if length (Split (Name nld) (CHR ''/'')) > 2
          then [hd (Split (Name nld) (CHR ''/''))] else [])"
  by (simp add: getScopes_def Let_def)

theorem C8_scope_group_witness:
  "HasPrefix ''@org/sub/pkg'' ''@'' \<and> HasPrefix ''@org/pkg'' ''@'' \<and>
   getScopes (new_npmLsDependency\<lparr> Name := ''@org/sub/pkg'' \<rparr>) = [''prod'', ''@org''] \<and>
   getScopes (new_npmLsDependency\<lparr> Name := ''@org/pkg'' \<rparr>) = [''prod'']"
proof -
  have h1: "HasPrefix (Name (new_npmLsDependency\<lparr> Name := ''@org/sub/pkg'' \<rparr>)) ''@''"
    by (simp add: HasPrefix_def)
  have h2: "HasPrefix (Name (new_npmLsDependency\<lparr> Name := ''@org/pkg'' \<rparr>)) ''@''"
    by (simp add: HasPrefix_def)
  from C8_scope_group[OF h1] C8_scope_group[OF h2] h1 h2 show ?thesis
    by (simp add: new_npmLsDependency_def)
qed

subsection \<open>Version prefixes of the manifest\<close>

text \<open>
  Claim C5, amended. For every manifest that decodes, under a manager of major version
  less than 7 the version returned is the manifest's version with one leading \<open>v\<close>
  removed if there is one, and then one leading \<open>=\<close> removed from the result if there is
  one; under a manager of major version 7 or more, or when no manager version is given,
  it is the manifest's version unchanged. So \<open>v=1.2.3\<close> becomes \<open>1.2.3\<close>.
\<close>

theorem C5_version_prefixes:
  "Unmarshal PackageInfo_field data new_PackageInfo = Inr p \<Longrightarrow>
   \<exists>q. ReadPackageInfo data npmVersion = Inr q \<and>
       pkgVersion q =
         (case npmVersion of
            None \<Rightarrow> pkgVersion p
          | Some v \<Rightarrow>
              if major v < 7
              then strip_leading (CHR ''='') (strip_leading (CHR ''v'') (pkgVersion p))
              else pkgVersion p)"
  by (cases npmVersion)
     (simp_all add: ReadPackageInfo_def Let_def Compare_7 pkgVersion_splitScopeFromName
        removeVersionPrefixes_def TrimPrefix_char)

theorem C5_version_prefixes_witness:
  "Unmarshal PackageInfo_field manifest_v_eq new_PackageInfo
     = Inr \<lparr> pkgName = ''pkg'', pkgVersion = ''v=1.2.3'', pkgScope = [] \<rparr> \<and>
   (\<exists>q. ReadPackageInfo manifest_v_eq (Some [6, 14, 8]) = Inr q \<and> pkgVersion q = ''1.2.3'')"
proof -
  have h: "Unmarshal PackageInfo_field manifest_v_eq new_PackageInfo
             = Inr \<lparr> pkgName = ''pkg'', pkgVersion = ''v=1.2.3'', pkgScope = [] \<rparr>"
    by code_simp
  from C5_version_prefixes[OF h, of "Some [6, 14, 8]"] h show ?thesis
    by (simp add: major_def strip_leading_def)
qed

text \<open>
  The manifest version \<open>=v1.2.3\<close> under npm 6.14.8 does not yield \<open>1.2.3\<close>: the
  string does not start with \<open>v\<close>, so only the \<open>=\<close> is removed and \<open>v1.2.3\<close> is returned.
\<close>

theorem C5_counterexample:
  "ReadPackageInfo manifest_eq_v (Some [6, 14, 8])
     = Inr \<lparr> pkgName = ''pkg'', pkgVersion = ''v1.2.3'', pkgScope = [] \<rparr> \<and>
   ReadPackageInfo manifest_eq_v (Some [6, 14, 8])
     \<noteq> Inr \<lparr> pkgName = ''pkg'', pkgVersion = ''1.2.3'', pkgScope = [] \<rparr>"
  by code_simp

subsection \<open>Merging scopes\<close>

lemma loop_set: "set (appendScopes_loop acc xs) = set acc \<union> (set xs - {[]})"
  by (induction acc xs rule: appendScopes_loop.induct) auto

lemma loop_distinct: "distinct acc \<Longrightarrow> distinct (appendScopes_loop acc xs)"
  by (induction acc xs rule: appendScopes_loop.induct) auto

lemma loop_no_empty: "[] \<notin> set acc \<Longrightarrow> [] \<notin> set (appendScopes_loop acc xs)"
  by (simp add: loop_set)

lemma loop_append:
  "appendScopes_loop acc (xs @ ys) = appendScopes_loop (appendScopes_loop acc xs) ys"
  by (induction acc xs rule: appendScopes_loop.induct) auto

lemma loop_prefix: "prefix acc (appendScopes_loop acc xs)"
proof (induction acc xs rule: appendScopes_loop.induct)
  case (2 allScopes scope rest)
  then show ?case
    by (auto intro: prefix_order.trans[of allScopes "allScopes @ [scope]"])
qed simp

lemma loop_clean_id: "distinct (acc @ xs) \<Longrightarrow> [] \<notin> set xs \<Longrightarrow> appendScopes_loop acc xs = acc @ xs"
  by (induction acc xs rule: appendScopes_loop.induct) auto

lemma loop_covered: "set xs - {[]} \<subseteq> set acc \<Longrightarrow> appendScopes_loop acc xs = acc"
  by (induction acc xs rule: appendScopes_loop.induct) auto

lemma appendScopes_clean: "clean (appendScopes old new)"
  by (simp add: clean_def appendScopes_def loop_distinct loop_no_empty)

lemma appendScopes_set: "set (appendScopes old new) = (set old \<union> set new) - {[]}"
  by (auto simp: appendScopes_def loop_set)

lemma appendScopes_of_clean:
  "clean old \<Longrightarrow> appendScopes old new = appendScopes_loop old new"
  using loop_clean_id[of "[]" old]
  by (simp add: appendScopes_def loop_append clean_def)

lemma appendScopes_prefix: "clean old \<Longrightarrow> prefix old (appendScopes old new)"
  by (simp add: appendScopes_of_clean loop_prefix)

lemma appendScopes_covered:
  "clean old \<Longrightarrow> set new - {[]} \<subseteq> set old \<Longrightarrow> appendScopes old new = old"
  by (simp add: appendScopes_of_clean loop_covered)

subsection \<open>What a sequence of merges does to an id\<close>

lemma dom_appendDependency: "dom (appendDependency m dep p) = insert (id' dep) (dom m)"
  by (simp add: appendDependency_def Let_def)

lemma dom_appendDependencies:
  "dom (appendDependencies m occs) = dom m \<union> (\<lambda>(dep, p). id' dep) ` set occs"
proof (induction occs arbitrary: m)
  case Nil
  show ?case by (simp add: appendDependencies_Nil)
next
  case (Cons occ occs)
  obtain dep p where occ: "occ = (dep, p)" by (cases occ)
  show ?case
    unfolding occ appendDependencies_Cons Cons.IH dom_appendDependency by auto
qed

lemma requested_step:
  "requested_of (appendDependency m dep p) k =
     requested_of m k @ (if id' dep = k then [p] else [])"
  by (cases "m (id' dep)")
     (auto simp: requested_of_def appendDependency_other appendDependency_new
        appendDependency_old)

lemma requested_appendDependencies:
  "requested_of (appendDependencies m occs) k = requested_of m k @ paths_of k occs"
  by (induction occs arbitrary: m)
     (auto simp: appendDependencies_Nil appendDependencies_Cons requested_step paths_of_def)

lemma checksums_step: "checksums_of (appendDependency m dep p) k = checksums_of m k"
  by (cases "m (id' dep)"; cases "k = id' dep")
     (auto simp: checksums_of_def appendDependency_other appendDependency_new
        appendDependency_old)

lemma checksums_appendDependencies:
  "checksums_of (appendDependencies m occs) k = checksums_of m k"
  by (induction occs arbitrary: m)
     (auto simp: appendDependencies_Nil appendDependencies_Cons checksums_step)

lemma scopes_step:
  "scopes_of (appendDependency m dep p) k =
     (if id' dep = k then appendScopes (scopes_of m k) (getScopes dep) else scopes_of m k)"
  by (cases "m (id' dep)")
     (auto simp: scopes_of_def appendDependency_other appendDependency_new
        appendDependency_old)

lemma covered_point:
  assumes "id' a \<in> dom m" and "clean (scopes_of m (id' a))"
    and "set (getScopes a) - {[]} \<subseteq> set (scopes_of m (id' a))"
  shows "id' a \<in> dom (appendDependency m dep p) \<and>
         clean (scopes_of (appendDependency m dep p) (id' a)) \<and>
         set (getScopes a) - {[]} \<subseteq> set (scopes_of (appendDependency m dep p) (id' a))"
proof (cases "id' dep = id' a")
  case True
  have "set (getScopes a) - {[]}
          \<subseteq> (set (scopes_of m (id' a)) \<union> set (getScopes dep)) - {[]}"
    using assms(3) by blast
  with True assms(1) show ?thesis
    by (simp add: dom_appendDependency scopes_step appendScopes_clean appendScopes_set)
next
  case False
  with assms show ?thesis
    by (simp add: dom_appendDependency scopes_step)
qed

lemma covered_step_keep: "covered m xs \<Longrightarrow> covered (appendDependency m dep p) xs"
  unfolding covered_def using covered_point by fast

lemma covered_step_new: "covered (appendDependency m dep p) [(dep, p)]"
  unfolding covered_def
  by (auto simp: dom_appendDependency scopes_step appendScopes_clean appendScopes_set)

lemma covered_append: "covered m (xs @ ys) = (covered m xs \<and> covered m ys)"
  unfolding covered_def by auto

lemma covered_after:
  "covered m xs \<Longrightarrow> covered (appendDependencies m occs) (xs @ occs)"
proof (induction occs arbitrary: m xs)
  case Nil
  then show ?case by (simp add: appendDependencies_Nil)
next
  case (Cons occ occs)
  obtain dep p where occ: "occ = (dep, p)" by (cases occ)
  have "covered (appendDependency m dep p) (xs @ [(dep, p)])"
    using Cons.prems by (simp add: covered_append covered_step_keep covered_step_new)
  from Cons.IH[OF this] show ?case by (simp add: occ appendDependencies_Cons)
qed

lemma scopes_covered:
  "covered m occs \<Longrightarrow> scopes_of (appendDependencies m occs) k = scopes_of m k"
proof (induction occs arbitrary: m)
  case Nil
  then show ?case by (simp add: appendDependencies_Nil)
next
  case (Cons occ occs)
  obtain dep p where occ: "occ = (dep, p)" by (cases occ)
  from Cons.prems have here: "clean (scopes_of m (id' dep))"
      "set (getScopes dep) - {[]} \<subseteq> set (scopes_of m (id' dep))"
    and rest: "covered m occs"
    by (auto simp: covered_def occ)
  have same: "scopes_of (appendDependency m dep p) k = scopes_of m k"
    using here by (auto simp: scopes_step appendScopes_covered)
  have "covered (appendDependency m dep p) occs"
    using rest by (rule covered_step_keep)
  from Cons.IH[OF this] same show ?case by (simp add: occ appendDependencies_Cons)
qed

subsection \<open>Walking a tree twice\<close>

text \<open>
  Claim C7. Walk a tree into the empty map, and walk the same tree again into the
  result. The two maps have the same ids; for every id the scopes and the checksums are
  the same, and the list of paths after the second walk is the list after the first
  walk followed by itself, so it is exactly twice as long.
\<close>

theorem C7_second_walk:
  "let first_state = fst (parseDependencies data pathToRoot
                            \<lparr> deps = Map.empty, logs = lg \<rparr> parseFunc);
       once = deps first_state;
       twice = deps (fst (parseDependencies data pathToRoot first_state parseFunc))
   in dom twice = dom once \<and>
      (\<forall>k. scopes_of twice k = scopes_of once k \<and>
           checksums_of twice k = checksums_of once k \<and>
           requested_of twice k = requested_of once k @ requested_of once k \<and>
           length (requested_of twice k) = 2 * length (requested_of once k))"
proof -
  obtain occs lg' err where walk:
    "\<And>w'. parseDependencies data pathToRoot w' parseFunc =
       (\<lparr> deps = appendDependencies (deps w') occs, logs = logs w' @ lg' \<rparr>, err)"
    using walk_is_merge(1)[of data pathToRoot parseFunc] by blast
  define once where "once = appendDependencies Map.empty occs"
  define twice where "twice = appendDependencies once occs"
  have "covered Map.empty []" by (simp add: covered_def)
  from covered_after[OF this, of occs] have cov: "covered once occs"
    by (simp add: once_def)
  have d: "dom twice = dom once"
    by (auto simp: twice_def once_def dom_appendDependencies)
  have s: "scopes_of twice k = scopes_of once k" for k
    unfolding twice_def using cov by (rule scopes_covered)
  have c: "checksums_of twice k = checksums_of once k" for k
    by (simp add: twice_def checksums_appendDependencies)
  have r1: "requested_of once k = paths_of k occs" for k
    unfolding once_def requested_appendDependencies by (simp add: requested_of_def)
  have r: "requested_of twice k = requested_of once k @ requested_of once k" for k
    unfolding twice_def requested_appendDependencies r1 ..
  have "deps (fst (parseDependencies data pathToRoot \<lparr> deps = Map.empty, logs = lg \<rparr>
                     parseFunc)) = once"
    by (simp add: walk once_def)
  moreover have "deps (fst (parseDependencies data pathToRoot
      (fst (parseDependencies data pathToRoot \<lparr> deps = Map.empty, logs = lg \<rparr> parseFunc))
      parseFunc)) = twice"
    by (simp add: walk once_def twice_def)
  ultimately show ?thesis
    using d s c r by (simp add: Let_def)
qed

theorem C7_second_walk_witness:
  "length (requested_of (deps (fst (parseDependencies shared_tree [''pkgA:1.0.0'']
       \<lparr> deps = Map.empty, logs = [] \<rparr> npmLsDependencyParser))) ''shared:1.0.0'') = 2 \<and>
   length (requested_of (deps (fst (parseDependencies shared_tree [''pkgA:1.0.0'']
       (fst (parseDependencies shared_tree [''pkgA:1.0.0'']
               \<lparr> deps = Map.empty, logs = [] \<rparr> npmLsDependencyParser))
       npmLsDependencyParser))) ''shared:1.0.0'') = 4"
proof -
  have h: "length (requested_of (deps (fst (parseDependencies shared_tree [''pkgA:1.0.0'']
       \<lparr> deps = Map.empty, logs = [] \<rparr> npmLsDependencyParser))) ''shared:1.0.0'') = 2"
    by code_simp
  from C7_second_walk[of shared_tree "[''pkgA:1.0.0'']" "[]" npmLsDependencyParser] h
  show ?thesis by (simp add: Let_def)
qed

subsection \<open>The record an entry keeps\<close>

lemma first_occurrence_Cons:
  "first_occurrence k ((dep, p) # occs) =
     (if id' dep = k then Some dep else first_occurrence k occs)"
  by (simp add: first_occurrence_def)

lemma npmLs_step:
  "m k = Some e \<Longrightarrow>
   \<exists>e'. appendDependency m dep p k = Some e' \<and>
        npmLs e' = (npmLs e)\<lparr> Integrity := Integrity (npmLs e') \<rparr> \<and>
        Id' (Dependency e') = Id' (Dependency e)"
  by (cases "k = id' dep") (auto simp: appendDependency_other appendDependency_old)

lemma npmLs_kept:
  "m k = Some e \<Longrightarrow>
   \<exists>e'. appendDependencies m occs k = Some e' \<and>
        npmLs e' = (npmLs e)\<lparr> Integrity := Integrity (npmLs e') \<rparr> \<and>
        Id' (Dependency e') = Id' (Dependency e)"
proof (induction occs arbitrary: m e)
  case Nil
  then show ?case by (simp add: appendDependencies_Nil)
next
  case (Cons occ occs)
  obtain dep p where occ: "occ = (dep, p)" by (cases occ)
  from npmLs_step[of m k e dep p] Cons.prems obtain e1 where
    e1: "appendDependency m dep p k = Some e1"
      "npmLs e1 = (npmLs e)\<lparr> Integrity := Integrity (npmLs e1) \<rparr>"
      "Id' (Dependency e1) = Id' (Dependency e)"
    by blast
  from Cons.IH[of "appendDependency m dep p" e1] e1(1) obtain e2 where
    e2: "appendDependencies (appendDependency m dep p) occs k = Some e2"
      "npmLs e2 = (npmLs e1)\<lparr> Integrity := Integrity (npmLs e2) \<rparr>"
      "Id' (Dependency e2) = Id' (Dependency e1)"
    by blast
  have "npmLs e2 = (npmLs e)\<lparr> Integrity := Integrity (npmLs e2) \<rparr>"
    by (subst e2(2), subst e1(2)) simp
  with e2 e1(3) show ?case by (simp add: occ appendDependencies_Cons)
qed

lemma npmLs_first:
  "m k = None \<Longrightarrow>
   (case first_occurrence k occs of
      None \<Rightarrow> appendDependencies m occs k = None
    | Some dep \<Rightarrow>
        \<exists>e'. appendDependencies m occs k = Some e' \<and>
             npmLs e' = dep\<lparr> Integrity := Integrity (npmLs e') \<rparr> \<and>
             Id' (Dependency e') = k)"
proof (induction occs arbitrary: m)
  case Nil
  then show ?case by (simp add: appendDependencies_Nil first_occurrence_def)
next
  case (Cons occ occs)
  obtain dep p where occ: "occ = (dep, p)" by (cases occ)
  show ?case
  proof (cases "id' dep = k")
    case True
    with Cons.prems have new: "appendDependency m dep p k =
        Some \<lparr> Dependency = \<lparr> Id' = k, Scopes = appendScopes [] (getScopes dep),
                 RequestedBy = [p], Md5 = [], Sha1 = [], Sha256 = [] \<rparr>, npmLs = dep \<rparr>"
      using appendDependency_new[of m dep p] by simp
    from npmLs_kept[of "appendDependency m dep p" k _ occs] new
    have "\<exists>e'. appendDependencies (appendDependency m dep p) occs k = Some e' \<and>
             npmLs e' = dep\<lparr> Integrity := Integrity (npmLs e') \<rparr> \<and>
             Id' (Dependency e') = k"
      by auto
    with True show ?thesis
      unfolding occ appendDependencies_Cons first_occurrence_Cons by simp
  next
    case False
    with Cons.prems have "appendDependency m dep p k = None"
      by (simp add: appendDependency_other)
    from Cons.IH[of "appendDependency m dep p"] this False show ?thesis
      unfolding occ appendDependencies_Cons first_occurrence_Cons by simp
  qed
qed

text \<open>
  Claim C10. Merging an occurrence whose id the map already holds replaces the entry
  of that id by the same entry with three changes only: the digest, backfilled when
  it was empty; the scopes, united with those of the occurrence; and one more path.
  Name, version and the flags bundled, dev, optional, missing, problems and
  peer-missing of the entry stay those it had. So after merging any sequence of
  occurrences into the empty map, the record kept for an id is that of the first
  occurrence of the id, up to the digest, whatever the flags of later occurrences.
\<close>

theorem C10_first_record_kept:
  "(m (id' dep) = Some e \<longrightarrow>
      appendDependency m dep p =
        m(id' dep \<mapsto>
          e\<lparr> npmLs := (npmLs e)\<lparr> Integrity :=
                 (if Integrity (npmLs e) = [] then Integrity dep else Integrity (npmLs e)) \<rparr>,
             Dependency := (Dependency e)
               \<lparr> Scopes := appendScopes (Scopes (Dependency e)) (getScopes dep),
                 RequestedBy := RequestedBy (Dependency e) @ [p] \<rparr> \<rparr>))
   \<and> (case first_occurrence k occs of
        None \<Rightarrow> appendDependencies Map.empty occs k = None
      | Some first \<Rightarrow>
          \<exists>e'. appendDependencies Map.empty occs k = Some e' \<and>
               npmLs e' = first\<lparr> Integrity := Integrity (npmLs e') \<rparr> \<and>
               Id' (Dependency e') = k)"
proof
  show "m (id' dep) = Some e \<longrightarrow>
      appendDependency m dep p =
        m(id' dep \<mapsto>
          e\<lparr> npmLs := (npmLs e)\<lparr> Integrity :=
                 (if Integrity (npmLs e) = [] then Integrity dep else Integrity (npmLs e)) \<rparr>,
             Dependency := (Dependency e)
               \<lparr> Scopes := appendScopes (Scopes (Dependency e)) (getScopes dep),
                 RequestedBy := RequestedBy (Dependency e) @ [p] \<rparr> \<rparr>)"
    by (simp add: appendDependency_def Let_def)
  show "case first_occurrence k occs of
        None \<Rightarrow> appendDependencies Map.empty occs k = None
      | Some first \<Rightarrow>
          \<exists>e'. appendDependencies Map.empty occs k = Some e' \<and>
               npmLs e' = first\<lparr> Integrity := Integrity (npmLs e') \<rparr> \<and>
               Id' (Dependency e') = k"
    by (rule npmLs_first) simp
qed

theorem C10_first_record_kept_witness:
  "deps seeded_walk (id' later_occurrence) = Some seeded_entry \<and>
   appendDependency (deps seeded_walk) later_occurrence [''other:2.0.0'', ''pkgA:1.0.0'']
       (id' later_occurrence)
     = Some \<lparr> Dependency = \<lparr> Id' = ''shared:1.0.0'', Scopes = [''prod'', ''dev''],
                RequestedBy = [[''pkgA:1.0.0''], [''other:2.0.0'', ''pkgA:1.0.0'']],
                Md5 = [], Sha1 = [], Sha256 = [] \<rparr>,
              npmLs = new_npmLsDependency\<lparr> Name := ''shared'', Version := ''1.0.0'',
                                           Integrity := ''sha512-A'' \<rparr> \<rparr>"
proof -
  have h: "deps seeded_walk (id' later_occurrence) = Some seeded_entry"
    by code_simp
  have s: "appendScopes [''prod''] (getScopes later_occurrence) = [''prod'', ''dev'']"
    by code_simp
  from C10_first_record_kept[of "deps seeded_walk" later_occurrence seeded_entry
      "[''other:2.0.0'', ''pkgA:1.0.0'']" "[]" "[]"] h
  have "appendDependency (deps seeded_walk) later_occurrence [''other:2.0.0'', ''pkgA:1.0.0'']
      = (deps seeded_walk)(id' later_occurrence \<mapsto>
          seeded_entry\<lparr> npmLs := (npmLs seeded_entry)\<lparr> Integrity :=
                 (if Integrity (npmLs seeded_entry) = [] then Integrity later_occurrence
                  else Integrity (npmLs seeded_entry)) \<rparr>,
             Dependency := (Dependency seeded_entry)
               \<lparr> Scopes := appendScopes (Scopes (Dependency seeded_entry))
                             (getScopes later_occurrence),
                 RequestedBy := RequestedBy (Dependency seeded_entry)
                                  @ [[''other:2.0.0'', ''pkgA:1.0.0'']] \<rparr> \<rparr>)"
    by blast
  then show ?thesis using h s
    by (simp add: seeded_entry_def new_npmLsDependency_def)
qed

subsection \<open>The scopes of an entry\<close>

lemma HasPrefix_at_hd_Split:
  "HasPrefix name ''@'' \<Longrightarrow> HasPrefix (hd (Split name (CHR ''/''))) ''@''"
  unfolding Split_hd by (cases name) (auto simp: HasPrefix_def)

lemma getScopes_labels:
  "s \<in> set (getScopes dep) \<Longrightarrow> s = ''dev'' \<or> s = ''prod'' \<or> HasPrefix s ''@''"
  by (auto simp: getScopes_def Let_def HasPrefix_at_hd_Split split: if_splits)

lemma getScopes_dev_prod: "''dev'' \<in> set (getScopes dep) \<or> ''prod'' \<in> set (getScopes dep)"
  by (auto simp: getScopes_def Let_def)

lemma wf_scopes_appendScopes:
  assumes "\<forall>s \<in> set old. s = ''dev'' \<or> s = ''prod'' \<or> HasPrefix s ''@''"
  shows "wf_scopes (appendScopes old (getScopes dep))"
proof -
  have "clean (appendScopes old (getScopes dep))" by (rule appendScopes_clean)
  moreover have "''dev'' \<in> set (appendScopes old (getScopes dep)) \<or>
                 ''prod'' \<in> set (appendScopes old (getScopes dep))"
    using getScopes_dev_prod[of dep] by (auto simp: appendScopes_set)
  moreover have "\<forall>s \<in> set (appendScopes old (getScopes dep)).
                   s = ''dev'' \<or> s = ''prod'' \<or> HasPrefix s ''@''"
    using assms getScopes_labels by (auto simp: appendScopes_set)
  ultimately show ?thesis by (simp add: wf_scopes_def clean_def)
qed

lemma wf_scopes_clean: "wf_scopes S \<Longrightarrow> clean S"
  by (simp add: wf_scopes_def clean_def)

lemma all_wf_step:
  assumes "all_wf m"
  shows "all_wf (appendDependency m dep p)"
    and "m k = Some e \<Longrightarrow>
         \<exists>e'. appendDependency m dep p k = Some e' \<and>
              prefix (Scopes (Dependency e)) (Scopes (Dependency e'))"
proof -
  show "all_wf (appendDependency m dep p)"
    unfolding all_wf_def
  proof (intro allI impI)
    fix k' e' assume a: "appendDependency m dep p k' = Some e'"
    show "wf_scopes (Scopes (Dependency e'))"
    proof (cases "k' = id' dep")
      case False
      with a assms show ?thesis by (simp add: appendDependency_other all_wf_def)
    next
      case True
      show ?thesis
      proof (cases "m (id' dep)")
        case None
        with a True show ?thesis
          using wf_scopes_appendScopes[of "[]" dep] by (auto simp: appendDependency_new)
      next
        case (Some e0)
        with assms have "wf_scopes (Scopes (Dependency e0))" by (simp add: all_wf_def)
        then have "\<forall>s \<in> set (Scopes (Dependency e0)). s = ''dev'' \<or> s = ''prod'' \<or> HasPrefix s ''@''"
          by (simp add: wf_scopes_def)
        from wf_scopes_appendScopes[OF this, of dep] a True Some show ?thesis
          by (auto simp: appendDependency_old)
      qed
    qed
  qed
  show "\<exists>e'. appendDependency m dep p k = Some e' \<and>
              prefix (Scopes (Dependency e)) (Scopes (Dependency e'))" if k: "m k = Some e"
  proof (cases "k = id' dep")
    case False
    with k show ?thesis by (simp add: appendDependency_other)
  next
    case True
    from assms k have "clean (Scopes (Dependency e))"
      by (auto simp: all_wf_def intro: wf_scopes_clean)
    from appendScopes_prefix[OF this, of "getScopes dep"] k True show ?thesis
      by (simp add: appendDependency_old)
  qed
qed

lemma all_wf_fold:
  "all_wf m \<Longrightarrow>
   all_wf (appendDependencies m occs) \<and>
   (\<forall>k e. m k = Some e \<longrightarrow>
      (\<exists>e'. appendDependencies m occs k = Some e' \<and>
            prefix (Scopes (Dependency e)) (Scopes (Dependency e'))))"
proof (induction occs arbitrary: m)
  case Nil
  then show ?case by (simp add: appendDependencies_Nil)
next
  case (Cons occ occs)
  obtain dep p where occ: "occ = (dep, p)" by (cases occ)
  have wf1: "all_wf (appendDependency m dep p)" using Cons.prems by (rule all_wf_step(1))
  note IH = Cons.IH[OF wf1]
  show ?case
    unfolding occ appendDependencies_Cons
  proof (intro conjI allI impI)
    show "all_wf (appendDependencies (appendDependency m dep p) occs)" using IH by simp
  next
    fix k e assume "m k = Some e"
    from all_wf_step(2)[OF Cons.prems this, of dep p] obtain e1 where
      e1: "appendDependency m dep p k = Some e1"
        "prefix (Scopes (Dependency e)) (Scopes (Dependency e1))" by blast
    from IH e1(1) obtain e2 where
      e2: "appendDependencies (appendDependency m dep p) occs k = Some e2"
        "prefix (Scopes (Dependency e1)) (Scopes (Dependency e2))" by blast
    from e1(2) e2(2) have "prefix (Scopes (Dependency e)) (Scopes (Dependency e2))"
      by (rule prefix_order.trans)
    with e2(1) show "\<exists>e'. appendDependencies (appendDependency m dep p) occs k = Some e' \<and>
            prefix (Scopes (Dependency e)) (Scopes (Dependency e'))" by blast
  qed
qed

lemma set_first_seen: "set (first_seen xs) = set xs"
  by (induction xs rule: first_seen.induct) auto

lemma loop_first_seen:
  "appendScopes_loop acc xs = acc @ first_seen (filter (\<lambda>s. s \<noteq> [] \<and> s \<notin> set acc) xs)"
proof (induction acc xs rule: appendScopes_loop.induct)
  case (1 allScopes)
  show ?case by simp
next
  case (2 allScopes scope rest)
  have f: "filter (\<lambda>y. y \<noteq> scope) (filter (\<lambda>s. s \<noteq> [] \<and> s \<notin> set allScopes) rest)
      = filter (\<lambda>s. s \<noteq> [] \<and> s \<notin> set (allScopes @ [scope])) rest"
    by (auto intro: filter_cong)
  show ?case
  proof (cases "scope = []")
    case True
    with 2 show ?thesis by simp
  next
    case False
    show ?thesis
    proof (cases "scope \<in> set allScopes")
      case True
      with False 2 show ?thesis by simp
    next
      case notin: False
      with False 2(2) f show ?thesis by simp
    qed
  qed
qed

lemma getScopes_no_empty: "[] \<notin> set (getScopes dep)"
  using getScopes_labels[of "[]" dep] by (auto simp: HasPrefix_def)

lemma labels_of_no_empty: "[] \<notin> set (labels_of k occs)"
  by (auto simp: labels_of_def getScopes_no_empty)

lemma labels_of_Cons:
  "labels_of k ((dep, p) # occs) = (if id' dep = k then getScopes dep else []) @ labels_of k occs"
  by (simp add: labels_of_def)

lemma all_wf_clean_scopes: "all_wf m \<Longrightarrow> clean (scopes_of m k)"
  by (cases "m k") (auto simp: scopes_of_def all_wf_def clean_def wf_scopes_def)

lemma scopes_fold_loop:
  "all_wf m \<Longrightarrow>
   scopes_of (appendDependencies m occs) k = appendScopes_loop (scopes_of m k) (labels_of k occs)"
proof (induction occs arbitrary: m)
  case Nil
  then show ?case by (simp add: appendDependencies_Nil labels_of_def)
next
  case (Cons occ occs)
  obtain dep p where occ: "occ = (dep, p)" by (cases occ)
  have wf1: "all_wf (appendDependency m dep p)" using Cons.prems by (rule all_wf_step(1))
  have step: "scopes_of (appendDependency m dep p) k
      = appendScopes_loop (scopes_of m k) (if id' dep = k then getScopes dep else [])"
    using all_wf_clean_scopes[OF Cons.prems, of k]
    by (simp add: scopes_step appendScopes_of_clean)
  show ?case
    unfolding occ appendDependencies_Cons Cons.IH[OF wf1] step labels_of_Cons loop_append ..
qed

lemma scopes_fold_exact:
  assumes "all_wf m"
  shows "scopes_of (appendDependencies m occs) k =
     scopes_of m k @ first_seen (filter (\<lambda>s. s \<notin> set (scopes_of m k)) (labels_of k occs))"
proof -
  have "filter (\<lambda>s. s \<noteq> [] \<and> s \<notin> set (scopes_of m k)) (labels_of k occs)
      = filter (\<lambda>s. s \<notin> set (scopes_of m k)) (labels_of k occs)"
    using labels_of_no_empty[of k occs] by (auto intro: filter_cong)
  then show ?thesis
    unfolding scopes_fold_loop[OF assms] loop_first_seen by simp
qed

lemma own_label:
  assumes "all_wf m" and "(dep, p) \<in> set occs"
  shows "(if Dev dep then ''dev'' else ''prod'')
           \<in> set (scopes_of (appendDependencies m occs) (id' dep))"
proof -
  have "(if Dev dep then ''dev'' else ''prod'') \<in> set (getScopes dep)"
    by (auto simp: getScopes_def Let_def)
  moreover have "set (getScopes dep) \<subseteq> set (labels_of (id' dep) occs)"
    using assms(2) by (force simp: labels_of_def)
  ultimately have "(if Dev dep then ''dev'' else ''prod'') \<in> set (labels_of (id' dep) occs)"
    by blast
  then show ?thesis
    unfolding scopes_fold_exact[OF assms(1)] by (auto simp: set_first_seen)
qed

text \<open>
  Claim C3, amended. A walk into a map whose lists of scopes are well formed (the empty
  map is one) leaves every list of scopes well formed: without repetition, without the
  empty label, holding \<open>dev\<close> or \<open>prod\<close>, every other label being a scope group. Labels
  are only ever added at the end: the list an entry had before the walk is a prefix of
  the list it has after it. A walk is a sequence of merges of occurrences, and after
  any such sequence the scopes of an id are those it had, followed by the labels of
  its occurrences that it did not have, in the order of their first appearance. So
  the list holds \<open>dev\<close> as soon as one occurrence of the id is a development
  dependency and \<open>prod\<close> as soon as one is not: both, when the id occurs as both.
\<close>

theorem C3_scopes_well_formed:
  assumes "all_wf (deps w)"
  shows "all_wf (deps (fst (parseDependencies data pathToRoot w parseFunc))) \<and>
         (\<forall>k e. deps w k = Some e \<longrightarrow>
            (\<exists>e'. deps (fst (parseDependencies data pathToRoot w parseFunc)) k = Some e' \<and>
                  prefix (Scopes (Dependency e)) (Scopes (Dependency e')))) \<and>
         (\<exists>merged. \<forall>w'. deps (fst (parseDependencies data pathToRoot w' parseFunc))
                          = appendDependencies (deps w') merged) \<and>
         scopes_of (appendDependencies (deps w) occs) k =
           scopes_of (deps w) k
             @ first_seen (filter (\<lambda>s. s \<notin> set (scopes_of (deps w) k)) (labels_of k occs)) \<and>
         ((dep, p) \<in> set occs \<longrightarrow>
            (if Dev dep then ''dev'' else ''prod'')
              \<in> set (scopes_of (appendDependencies (deps w) occs) (id' dep)))"
proof -
  obtain merged lg err where walk:
    "\<And>w'. parseDependencies data pathToRoot w' parseFunc =
       (\<lparr> deps = appendDependencies (deps w') merged, logs = logs w' @ lg \<rparr>, err)"
    using walk_is_merge(1)[of data pathToRoot parseFunc] by blast
  then have m: "deps (fst (parseDependencies data pathToRoot w' parseFunc))
      = appendDependencies (deps w') merged" for w' by simp
  from all_wf_fold[OF assms, of merged]
  have kept: "all_wf (deps (fst (parseDependencies data pathToRoot w parseFunc))) \<and>
         (\<forall>k e. deps w k = Some e \<longrightarrow>
            (\<exists>e'. deps (fst (parseDependencies data pathToRoot w parseFunc)) k = Some e' \<and>
                  prefix (Scopes (Dependency e)) (Scopes (Dependency e'))))"
    unfolding m .
  have is_merge: "\<exists>merged. \<forall>w'. deps (fst (parseDependencies data pathToRoot w' parseFunc))
                          = appendDependencies (deps w') merged"
    using m by blast
  have exact: "scopes_of (appendDependencies (deps w) occs) k =
           scopes_of (deps w) k
             @ first_seen (filter (\<lambda>s. s \<notin> set (scopes_of (deps w) k)) (labels_of k occs))"
    using assms by (rule scopes_fold_exact)
  have own: "(dep, p) \<in> set occs \<longrightarrow>
            (if Dev dep then ''dev'' else ''prod'')
              \<in> set (scopes_of (appendDependencies (deps w) occs) (id' dep))"
    using own_label[OF assms] by blast
  from kept is_merge exact own show ?thesis by blast
qed

theorem C3_scopes_well_formed_witness:
  "all_wf (deps seeded_walk) \<and>
   deps seeded_walk ''shared:1.0.0'' = Some seeded_entry \<and>
   deps (fst (parseDependencies shared_tree [''pkgA:1.0.0''] seeded_walk npmLsDependencyParser))
     ''shared:1.0.0'' = Some walked_entry \<and>
   wf_scopes (Scopes (Dependency walked_entry)) \<and>
   prefix (Scopes (Dependency seeded_entry)) (Scopes (Dependency walked_entry)) \<and>
   (later_occurrence, [''other:2.0.0'', ''pkgA:1.0.0''])
     \<in> set [(later_occurrence, [''other:2.0.0'', ''pkgA:1.0.0''])] \<and>
   Dev later_occurrence \<and>
   scopes_of (deps seeded_walk) ''shared:1.0.0'' = [''prod''] \<and>
   scopes_of (appendDependencies (deps seeded_walk)
                [(later_occurrence, [''other:2.0.0'', ''pkgA:1.0.0''])]) ''shared:1.0.0''
     = [''prod'', ''dev''] \<and>
   ''dev'' \<in> set (scopes_of (appendDependencies (deps seeded_walk)
                [(later_occurrence, [''other:2.0.0'', ''pkgA:1.0.0''])]) (id' later_occurrence))"
proof -
  have "all_wf Map.empty" by (simp add: all_wf_def)
  then have h: "all_wf (deps seeded_walk)"
    unfolding seeded_walk_def walk.simps by (rule all_wf_step(1))
  have s: "deps seeded_walk ''shared:1.0.0'' = Some seeded_entry" by code_simp
  have t: "deps (fst (parseDependencies shared_tree [''pkgA:1.0.0''] seeded_walk
             npmLsDependencyParser)) ''shared:1.0.0'' = Some walked_entry"
    by code_simp
  have o: "(later_occurrence, [''other:2.0.0'', ''pkgA:1.0.0''])
     \<in> set [(later_occurrence, [''other:2.0.0'', ''pkgA:1.0.0''])]" by simp
  have d: "Dev later_occurrence" by code_simp
  have old: "scopes_of (deps seeded_walk) ''shared:1.0.0'' = [''prod'']" by code_simp
  have new: "scopes_of (deps seeded_walk) ''shared:1.0.0''
      @ first_seen (filter (\<lambda>s. s \<notin> set (scopes_of (deps seeded_walk) ''shared:1.0.0''))
           (labels_of ''shared:1.0.0'' [(later_occurrence, [''other:2.0.0'', ''pkgA:1.0.0''])]))
      = [''prod'', ''dev'']" by code_simp
  note c = C3_scopes_well_formed[OF h, of shared_tree "[''pkgA:1.0.0'']" npmLsDependencyParser
      "[(later_occurrence, [''other:2.0.0'', ''pkgA:1.0.0''])]" "''shared:1.0.0''"
      later_occurrence "[''other:2.0.0'', ''pkgA:1.0.0'']"]
  from c have wf: "wf_scopes (Scopes (Dependency walked_entry))"
    using t by (auto simp: all_wf_def)
  from c new have ex: "scopes_of (appendDependencies (deps seeded_walk)
                [(later_occurrence, [''other:2.0.0'', ''pkgA:1.0.0''])]) ''shared:1.0.0''
     = [''prod'', ''dev'']" by simp
  from c o d have both: "''dev'' \<in> set (scopes_of (appendDependencies (deps seeded_walk)
                [(later_occurrence, [''other:2.0.0'', ''pkgA:1.0.0''])]) (id' later_occurrence))"
    by simp
  have pre: "prefix (Scopes (Dependency seeded_entry)) (Scopes (Dependency walked_entry))"
    by (simp add: seeded_entry_def walked_entry_def)
  from h s t wf pre o d old ex both show ?thesis by blast
qed

text \<open>
  An id found once as a development and once as a production dependency ends with
  both labels: in \<open>shared_tree\<close> the scopes of \<open>shared:1.0.0\<close> are \<open>dev\<close> and \<open>prod\<close>.
\<close>

theorem C3_counterexample:
  "map_option (\<lambda>e. Scopes (Dependency e))
     (deps (fst (parseDependencies shared_tree [''pkgA:1.0.0''] empty_walk
                   npmLsDependencyParser)) ''shared:1.0.0'')
     = Some [''dev'', ''prod'']"
  by code_simp

subsection \<open>The final loop\<close>

lemma body_bundled:
  "missingBundledDeps (CalculateNpmDependenciesList_body e c cc dep a) =
     missingBundledDeps a @ ids (routed e c cc MissingBundled [dep])"
  by (simp add: CalculateNpmDependenciesList_body_def route_def routed_def ids_def
        split: sum.splits prod.splits)

lemma body_peer:
  "missingPeerDeps (CalculateNpmDependenciesList_body e c cc dep a) =
     missingPeerDeps a @ ids (routed e c cc MissingPeer [dep])"
  by (simp add: CalculateNpmDependenciesList_body_def route_def routed_def ids_def
        split: sum.splits prod.splits)

lemma body_optional:
  "missingOptionalDeps (CalculateNpmDependenciesList_body e c cc dep a) =
     missingOptionalDeps a @ ids (routed e c cc MissingOptional [dep])"
  by (simp add: CalculateNpmDependenciesList_body_def route_def routed_def ids_def
        split: sum.splits prod.splits)

lemma body_other:
  "otherMissingDeps (CalculateNpmDependenciesList_body e c cc dep a) =
     otherMissingDeps a @ ids (routed e c cc OtherMissing [dep])"
  by (simp add: CalculateNpmDependenciesList_body_def route_def routed_def ids_def
        split: sum.splits prod.splits)

lemma body_final:
  "dependenciesList (CalculateNpmDependenciesList_body e c cc dep a) =
     dependenciesList a @ map (listed e c cc) (routed e c cc FinalList [dep])"
  by (simp add: CalculateNpmDependenciesList_body_def route_def routed_def listed_def
        split: sum.splits prod.splits)

lemma routed_Cons:
  "routed e c cc d (dep # entries) = routed e c cc d [dep] @ routed e c cc d entries"
  by (simp add: routed_def)

lemma ids_append: "ids (xs @ ys) = ids xs @ ids ys"
  by (simp add: ids_def)

lemma loop_bundled:
  "missingBundledDeps (CalculateNpmDependenciesList_loop e c cc entries a) =
     missingBundledDeps a @ ids (routed e c cc MissingBundled entries)"
proof (induction entries arbitrary: a)
  case Nil
  show ?case by (simp add: routed_def ids_def)
next
  case (Cons dep entries)
  show ?case
    unfolding CalculateNpmDependenciesList_loop.simps Cons.IH body_bundled
      routed_Cons[of e c cc _ dep entries] ids_append by simp
qed

lemma loop_peer:
  "missingPeerDeps (CalculateNpmDependenciesList_loop e c cc entries a) =
     missingPeerDeps a @ ids (routed e c cc MissingPeer entries)"
proof (induction entries arbitrary: a)
  case Nil
  show ?case by (simp add: routed_def ids_def)
next
  case (Cons dep entries)
  show ?case
    unfolding CalculateNpmDependenciesList_loop.simps Cons.IH body_peer
      routed_Cons[of e c cc _ dep entries] ids_append by simp
qed

lemma loop_optional:
  "missingOptionalDeps (CalculateNpmDependenciesList_loop e c cc entries a) =
     missingOptionalDeps a @ ids (routed e c cc MissingOptional entries)"
proof (induction entries arbitrary: a)
  case Nil
  show ?case by (simp add: routed_def ids_def)
next
  case (Cons dep entries)
  show ?case
    unfolding CalculateNpmDependenciesList_loop.simps Cons.IH body_optional
      routed_Cons[of e c cc _ dep entries] ids_append by simp
qed

lemma loop_other:
  "otherMissingDeps (CalculateNpmDependenciesList_loop e c cc entries a) =
     otherMissingDeps a @ ids (routed e c cc OtherMissing entries)"
proof (induction entries arbitrary: a)
  case Nil
  show ?case by (simp add: routed_def ids_def)
next
  case (Cons dep entries)
  show ?case
    unfolding CalculateNpmDependenciesList_loop.simps Cons.IH body_other
      routed_Cons[of e c cc _ dep entries] ids_append by simp
qed

lemma loop_final:
  "dependenciesList (CalculateNpmDependenciesList_loop e c cc entries a) =
     dependenciesList a @ map (listed e c cc) (routed e c cc FinalList entries)"
proof (induction entries arbitrary: a)
  case Nil
  show ?case by (simp add: routed_def)
next
  case (Cons dep entries)
  show ?case
    unfolding CalculateNpmDependenciesList_loop.simps Cons.IH body_final
      routed_Cons[of e c cc _ dep entries] by simp
qed

lemma Id'_listed: "Id' (listed e c cc dep) = Id' (Dependency dep)"
  by (auto simp: listed_def split: sum.splits prod.splits)

lemma routed_disjoint:
  assumes "distinct (ids entries)" and "d \<noteq> d'"
  shows "set (ids (routed e c cc d entries)) \<inter> set (ids (routed e c cc d' entries)) = {}"
proof -
  from assms(1) have inj: "inj_on (\<lambda>dep. Id' (Dependency dep)) (set entries)"
    by (simp add: ids_def distinct_map)
  show ?thesis
  proof (rule ccontr)
    assume "set (ids (routed e c cc d entries)) \<inter> set (ids (routed e c cc d' entries)) \<noteq> {}"
    then obtain x y where x: "x \<in> set entries" "route e c cc x = d"
      and y: "y \<in> set entries" "route e c cc y = d'"
      and eq: "Id' (Dependency x) = Id' (Dependency y)"
      by (auto simp: ids_def routed_def)
    from inj x(1) y(1) eq have "x = y" by (auto dest: inj_onD)
    with x(2) y(2) assms(2) show False by simp
  qed
qed

lemma routed_distinct: "distinct (ids entries) \<Longrightarrow> distinct (ids (routed e c cc d entries))"
  by (simp add: ids_def routed_def distinct_map_filter)

lemma keys_ok_step: "keys_ok m \<Longrightarrow> keys_ok (appendDependency m dep p)"
  unfolding keys_ok_def
proof (intro allI impI)
  fix k e assume inv: "\<forall>k e. m k = Some e \<longrightarrow> Id' (Dependency e) = k"
    and a: "appendDependency m dep p k = Some e"
  show "Id' (Dependency e) = k"
  proof (cases "k = id' dep")
    case False
    with a inv show ?thesis by (simp add: appendDependency_other)
  next
    case True
    with a inv show ?thesis
      by (cases "m (id' dep)") (auto simp: appendDependency_new appendDependency_old)
  qed
qed

lemma keys_ok_fold: "keys_ok m \<Longrightarrow> keys_ok (appendDependencies m occs)"
proof (induction occs arbitrary: m)
  case Nil
  then show ?case by (simp add: appendDependencies_Nil)
next
  case (Cons occ occs)
  obtain dep p where occ: "occ = (dep, p)" by (cases occ)
  from Cons.prems have "keys_ok (appendDependency m dep p)" by (rule keys_ok_step)
  from Cons.IH[OF this] show ?case by (simp add: occ appendDependencies_Cons)
qed

lemma keys_ok_walk:
  "keys_ok (deps w) \<Longrightarrow> keys_ok (deps (fst (parseDependencies data pathToRoot w parseFunc)))"
proof -
  assume a: "keys_ok (deps w)"
  obtain occs lg err where
    "\<And>w'. parseDependencies data pathToRoot w' parseFunc =
       (\<lparr> deps = appendDependencies (deps w') occs, logs = logs w' @ lg \<rparr>, err)"
    using walk_is_merge(1)[of data pathToRoot parseFunc] by blast
  then have "deps (fst (parseDependencies data pathToRoot w parseFunc))
      = appendDependencies (deps w) occs" by simp
  with keys_ok_fold[OF a, of occs] show ?thesis by simp
qed

lemma ids_range_entries:
  assumes "keys_ok m"
  shows "ids (List.map_filter m ks) = filter (\<lambda>k. m k \<noteq> None) ks"
  using assms
  by (induction ks) (auto simp: ids_def keys_ok_def split: option.splits)

lemma range_entries_distinct:
  "keys_ok m \<Longrightarrow> distinct (range_order e m) \<Longrightarrow> distinct (ids (range_entries e m))"
  by (simp add: range_entries_def ids_range_entries)

lemma routed_cover:
  "set (ids entries) =
     set (ids (routed e c cc MissingBundled entries)) \<union> set (ids (routed e c cc MissingPeer entries))
     \<union> set (ids (routed e c cc MissingOptional entries))
     \<union> set (ids (routed e c cc OtherMissing entries))
     \<union> set (ids (routed e c cc FinalList entries))"
proof -
  have exh: "d = MissingBundled \<or> d = MissingPeer \<or> d = MissingOptional \<or> d = OtherMissing \<or>
        d = FinalList" for d
    by (cases d) simp_all
  have "set entries =
     set (routed e c cc MissingBundled entries) \<union> set (routed e c cc MissingPeer entries)
     \<union> set (routed e c cc MissingOptional entries)
     \<union> set (routed e c cc OtherMissing entries)
     \<union> set (routed e c cc FinalList entries)" (is "_ = ?U")
    unfolding routed_def using exh by auto
  then have "(\<lambda>dep. Id' (Dependency dep)) ` set entries = (\<lambda>dep. Id' (Dependency dep)) ` ?U"
    by (rule arg_cong)
  then show ?thesis
    by (simp add: ids_def image_Un)
qed

lemma ids_range_entries_all:
  assumes "keys_ok m" and "set (range_order e m) = dom m"
  shows "set (ids (range_entries e m)) = dom m"
proof -
  have "filter (\<lambda>k. m k \<noteq> None) (range_order e m) = range_order e m"
    using assms(2) by (auto simp: filter_id_conv)
  with assms show ?thesis
    by (simp add: range_entries_def ids_range_entries)
qed

text \<open>
  Claim C2. Take a map whose entries sit under their own ids, as every map of a walk
  does (\<open>keys_ok_walk\<close>), and let the loop visit each key of the map once, in whatever
  order. Then each entry goes to exactly one destination, the one \<open>route\<close> gives: each
  of the four buckets holds the ids of the entries routed to it, the final list the
  records of the entries routed to it, no id occurs twice among the four buckets and
  the final list, and together they hold all the ids of the map. So an entry without
  digest that is bundled is in the bundled bucket and nowhere else.
\<close>

theorem C2_routing:
  assumes "keys_ok m" and "distinct (range_order e m)" and "set (range_order e m) = dom m"
  shows "let entries = range_entries e m;
             a = CalculateNpmDependenciesList_loop e calculateChecksums cacache entries
                   (new_assembly lg)
         in missingBundledDeps a = ids (routed e calculateChecksums cacache MissingBundled entries) \<and>
            missingPeerDeps a = ids (routed e calculateChecksums cacache MissingPeer entries) \<and>
            missingOptionalDeps a
              = ids (routed e calculateChecksums cacache MissingOptional entries) \<and>
            otherMissingDeps a = ids (routed e calculateChecksums cacache OtherMissing entries) \<and>
            dependenciesList a
              = map (listed e calculateChecksums cacache)
                  (routed e calculateChecksums cacache FinalList entries) \<and>
            distinct (missingBundledDeps a @ missingPeerDeps a @ missingOptionalDeps a
                        @ otherMissingDeps a @ map Id' (dependenciesList a)) \<and>
            set (missingBundledDeps a @ missingPeerDeps a @ missingOptionalDeps a
                   @ otherMissingDeps a @ map Id' (dependenciesList a)) = dom m"
proof -
  define entries where "entries = range_entries e m"
  define a where "a = CalculateNpmDependenciesList_loop e calculateChecksums cacache entries
                   (new_assembly lg)"
  have d: "distinct (ids entries)"
    unfolding entries_def using assms(1,2) by (rule range_entries_distinct)
  have all: "set (ids entries) = dom m"
    unfolding entries_def using assms(1,3) by (rule ids_range_entries_all)
  have b: "missingBundledDeps a = ids (routed e calculateChecksums cacache MissingBundled entries)"
    by (simp add: a_def loop_bundled new_assembly_def)
  have p: "missingPeerDeps a = ids (routed e calculateChecksums cacache MissingPeer entries)"
    by (simp add: a_def loop_peer new_assembly_def)
  have o: "missingOptionalDeps a
      = ids (routed e calculateChecksums cacache MissingOptional entries)"
    by (simp add: a_def loop_optional new_assembly_def)
  have x: "otherMissingDeps a = ids (routed e calculateChecksums cacache OtherMissing entries)"
    by (simp add: a_def loop_other new_assembly_def)
  have f: "dependenciesList a
      = map (listed e calculateChecksums cacache)
          (routed e calculateChecksums cacache FinalList entries)"
    by (simp add: a_def loop_final new_assembly_def)
  have fi: "map Id' (dependenciesList a)
      = ids (routed e calculateChecksums cacache FinalList entries)"
    by (simp add: f ids_def Id'_listed)
  have dis: "distinct (missingBundledDeps a @ missingPeerDeps a @ missingOptionalDeps a
                        @ otherMissingDeps a @ map Id' (dependenciesList a))"
    unfolding b p o x fi
    using routed_distinct[OF d, of e calculateChecksums cacache]
      routed_disjoint[OF d, of _ _ e calculateChecksums cacache]
    by (simp add: Int_Un_distrib Int_Un_distrib2)
  have cov: "set (missingBundledDeps a @ missingPeerDeps a @ missingOptionalDeps a
                   @ otherMissingDeps a @ map Id' (dependenciesList a)) = dom m"
    unfolding b p o x fi all[symmetric]
      routed_cover[of entries e calculateChecksums cacache] by auto
  from b p o x f dis cov show ?thesis
    unfolding Let_def entries_def[symmetric] a_def[symmetric] by simp
qed

lemma dom_routes_map: "dom routes_map =
   {''bundled:1.0.0'', ''peer:1.0.0'', ''opt:1.0.0'', ''lost:1.0.0'', ''ok:1.0.0''}"
  by (simp add: routes_map_def routes_occurrences_def dom_appendDependencies id'_def
        new_npmLsDependency_def)

theorem C2_routing_witness:
  "map (deps (fst (parseDependencies routes_tree [''pkgA:1.0.0''] empty_walk
                     npmLsDependencyParser))) (range_order (example_env True) routes_map)
     = map routes_map (range_order (example_env True) routes_map) \<and>
   keys_ok routes_map \<and> distinct (range_order (example_env True) routes_map) \<and>
   set (range_order (example_env True) routes_map) = dom routes_map \<and>
   (let a = CalculateNpmDependenciesList_loop (example_env True) True
              (Some ''/home/u/.npm/_cacache'') (range_entries (example_env True) routes_map)
              (new_assembly [])
    in missingBundledDeps a = [''bundled:1.0.0''] \<and> missingPeerDeps a = [''peer:1.0.0''] \<and>
       missingOptionalDeps a = [''opt:1.0.0''] \<and> otherMissingDeps a = [''lost:1.0.0''] \<and>
       map Id' (dependenciesList a) = [''ok:1.0.0''] \<and>
       distinct (missingBundledDeps a @ missingPeerDeps a @ missingOptionalDeps a
                   @ otherMissingDeps a @ map Id' (dependenciesList a)) \<and>
       set (missingBundledDeps a @ missingPeerDeps a @ missingOptionalDeps a
              @ otherMissingDeps a @ map Id' (dependenciesList a)) = dom routes_map)"
proof -
  have "keys_ok Map.empty" by (simp add: keys_ok_def)
  then have k: "keys_ok routes_map" unfolding routes_map_def by (rule keys_ok_fold)
  have d: "distinct (range_order (example_env True) routes_map)"
    by (simp add: example_env_def)
  have s: "set (range_order (example_env True) routes_map) = dom routes_map"
    unfolding dom_routes_map by (auto simp: example_env_def)
  have r: "ids (routed (example_env True) True (Some ''/home/u/.npm/_cacache'') MissingBundled
                 (range_entries (example_env True) routes_map)) = [''bundled:1.0.0'']"
     "ids (routed (example_env True) True (Some ''/home/u/.npm/_cacache'') MissingPeer
                 (range_entries (example_env True) routes_map)) = [''peer:1.0.0'']"
     "ids (routed (example_env True) True (Some ''/home/u/.npm/_cacache'') MissingOptional
                 (range_entries (example_env True) routes_map)) = [''opt:1.0.0'']"
     "ids (routed (example_env True) True (Some ''/home/u/.npm/_cacache'') OtherMissing
                 (range_entries (example_env True) routes_map)) = [''lost:1.0.0'']"
     "map Id' (map (listed (example_env True) True (Some ''/home/u/.npm/_cacache''))
        (routed (example_env True) True (Some ''/home/u/.npm/_cacache'') FinalList
                 (range_entries (example_env True) routes_map))) = [''ok:1.0.0'']"
    by code_simp+
  have t: "map (deps (fst (parseDependencies routes_tree [''pkgA:1.0.0''] empty_walk
                     npmLsDependencyParser))) (range_order (example_env True) routes_map)
     = map routes_map (range_order (example_env True) routes_map)"
    by code_simp
  define a where "a = CalculateNpmDependenciesList_loop (example_env True) True
              (Some ''/home/u/.npm/_cacache'') (range_entries (example_env True) routes_map)
              (new_assembly [])"
  from C2_routing[OF k d s, of True "Some ''/home/u/.npm/_cacache''" "[]"]
  have c: "missingBundledDeps a = [''bundled:1.0.0'']" "missingPeerDeps a = [''peer:1.0.0'']"
    "missingOptionalDeps a = [''opt:1.0.0'']" "otherMissingDeps a = [''lost:1.0.0'']"
    "map Id' (dependenciesList a) = [''ok:1.0.0'']"
    and "distinct (missingBundledDeps a @ missingPeerDeps a @ missingOptionalDeps a
                   @ otherMissingDeps a @ map Id' (dependenciesList a))"
    and "set (missingBundledDeps a @ missingPeerDeps a @ missingOptionalDeps a
              @ otherMissingDeps a @ map Id' (dependenciesList a)) = dom routes_map"
    unfolding Let_def a_def[symmetric] using r by (simp_all add: dom_routes_map)
  with t k d s show ?thesis unfolding Let_def a_def[symmetric] by blast
qed

subsection \<open>One node of the tree\<close>





subsection \<open>A listing that fails\<close>

text \<open>
  Claim C6. When the listing subprocess returns an error, the directory looked up is
  the one \<^verbatim>\<open>filepath.Join\<close> builds from the project directory and \<open>node_modules\<close>: if
  it does not exist, the extraction ends at once with the error that names the
  project directory; if it exists, the extraction goes on as it would have without
  the error, on the output that was captured, after one warning that carries the
  text of the error.
\<close>

theorem C6_listing_failure:
  assumes "RunNpmCmd_ls e executablePath srcPath (npmArgs @ [''--json'', ''--all'', ''--long''])
             = (data, errData, Some err)"
  shows "(IsDirExists e (filepath_Join e [srcPath, ''node_modules'']) = Inr False \<longrightarrow>
            CalculateDependenciesMap e executablePath srcPath moduleId npmArgs lg
              = (\<lparr> deps = Map.empty, logs = lg \<rparr>, Some (node_modules_missing srcPath)))
       \<and> (IsDirExists e (filepath_Join e [srcPath, ''node_modules'']) = Inr True \<longrightarrow>
            CalculateDependenciesMap e executablePath srcPath moduleId npmArgs lg
              = CalculateDependenciesMap
                  (e\<lparr> RunNpmCmd_ls := \<lambda>executablePath srcPath npmArgs. (data, errData, None) \<rparr>)
                  executablePath srcPath moduleId npmArgs
                  (lg @ [Warn [''npm list command failed with error:'', Error err]]))"
  using assms
  by (simp add: CalculateDependenciesMap_def Let_def node_modules_missing_def)

theorem C6_listing_failure_witness:
  "RunNpmCmd_ls (example_env False) ''npm'' ''/proj'' ([] @ [''--json'', ''--all'', ''--long''])
     = (ls_output, ''npm ERR! extraneous'', Some (External ''exit status 1'')) \<and>
   IsDirExists (example_env False)
     (filepath_Join (example_env False) [''/proj'', ''node_modules'']) = Inr False \<and>
   CalculateDependenciesMap (example_env False) ''npm'' ''/proj'' ''pkgA:1.0.0'' [] []
     = (\<lparr> deps = Map.empty, logs = [] \<rparr>, Some (node_modules_missing ''/proj'')) \<and>
   RunNpmCmd_ls (example_env True) ''npm'' ''/proj'' ([] @ [''--json'', ''--all'', ''--long''])
     = (ls_output, ''npm ERR! extraneous'', Some (External ''exit status 1'')) \<and>
   IsDirExists (example_env True)
     (filepath_Join (example_env True) [''/proj'', ''node_modules'']) = Inr True \<and>
   CalculateDependenciesMap (example_env True) ''npm'' ''/proj'' ''pkgA:1.0.0'' [] []
     = CalculateDependenciesMap
         ((example_env True)\<lparr> RunNpmCmd_ls := \<lambda>executablePath srcPath npmArgs.
              (ls_output, ''npm ERR! extraneous'', None) \<rparr>)
         ''npm'' ''/proj'' ''pkgA:1.0.0'' []
         [Warn [''npm list command failed with error:'', ''exit status 1'']] \<and>
   snd (CalculateDependenciesMap (example_env True) ''npm'' ''/proj'' ''pkgA:1.0.0'' [] []) = None \<and>
   logs (fst (CalculateDependenciesMap (example_env True) ''npm'' ''/proj'' ''pkgA:1.0.0'' [] []))
     = [Warn [''npm list command failed with error:'', ''exit status 1''],
        Warn [''Some errors occurred while collecting dependencies info:'' @ [CHR 0x0A]
                @ ''npm ERR! extraneous'']] \<and>
   map_option (\<lambda>entry. Id' (Dependency entry))
     (deps (fst (CalculateDependenciesMap (example_env True) ''npm'' ''/proj'' ''pkgA:1.0.0''
                   [] [])) ''ok:1.0.0'') = Some ''ok:1.0.0''"
proof -
  have r0: "RunNpmCmd_ls (example_env False) ''npm'' ''/proj'' ([] @ [''--json'', ''--all'', ''--long''])
     = (ls_output, ''npm ERR! extraneous'', Some (External ''exit status 1''))"
    by (simp add: example_env_def)
  have d0: "IsDirExists (example_env False)
              (filepath_Join (example_env False) [''/proj'', ''node_modules'']) = Inr False"
    by (simp add: example_env_def)
  have r1: "RunNpmCmd_ls (example_env True) ''npm'' ''/proj'' ([] @ [''--json'', ''--all'', ''--long''])
     = (ls_output, ''npm ERR! extraneous'', Some (External ''exit status 1''))"
    by (simp add: example_env_def)
  have d1: "IsDirExists (example_env True)
              (filepath_Join (example_env True) [''/proj'', ''node_modules'']) = Inr True"
    by (simp add: example_env_def Join_def)
  from C6_listing_failure[OF r0, of "''pkgA:1.0.0''" "[]"] d0
  have a: "CalculateDependenciesMap (example_env False) ''npm'' ''/proj'' ''pkgA:1.0.0'' [] []
     = (\<lparr> deps = Map.empty, logs = [] \<rparr>, Some (node_modules_missing ''/proj''))"
    by simp
  from C6_listing_failure[OF r1, of "''pkgA:1.0.0''" "[]"] d1
  have b: "CalculateDependenciesMap (example_env True) ''npm'' ''/proj'' ''pkgA:1.0.0'' [] []
     = CalculateDependenciesMap
         ((example_env True)\<lparr> RunNpmCmd_ls := \<lambda>executablePath srcPath npmArgs.
              (ls_output, ''npm ERR! extraneous'', None) \<rparr>)
         ''npm'' ''/proj'' ''pkgA:1.0.0'' []
         [Warn [''npm list command failed with error:'', ''exit status 1'']]"
    by simp
  have c: "snd (CalculateDependenciesMap (example_env True) ''npm'' ''/proj'' ''pkgA:1.0.0'' [] []) = None"
    "logs (fst (CalculateDependenciesMap (example_env True) ''npm'' ''/proj'' ''pkgA:1.0.0'' [] []))
     = [Warn [''npm list command failed with error:'', ''exit status 1''],
        Warn [''Some errors occurred while collecting dependencies info:'' @ [CHR 0x0A]
                @ ''npm ERR! extraneous'']]"
    "map_option (\<lambda>entry. Id' (Dependency entry))
     (deps (fst (CalculateDependenciesMap (example_env True) ''npm'' ''/proj'' ''pkgA:1.0.0''
                   [] [])) ''ok:1.0.0'') = Some ''ok:1.0.0''"
    by code_simp+
  from r0 d0 a r1 d1 b c show ?thesis by blast
qed

end
